theory Spec2Isabelle
  imports Main "HOL-Library.Multiset"
begin

section \<open>Python values used by \<^verbatim>\<open>manage_certs.py\<close>\<close>

subsection \<open>Exceptions\<close>

text \<open>
  The exception classes that the script names in an \<^verbatim>\<open>except\<close> clause or that
  the calls it makes can raise. \<^verbatim>\<open>ValueError\<close> carries its message. The predicates
  below are the subclass tests that an \<^verbatim>\<open>except\<close> clause performs.
\<close>

datatype exn =
    FileNotFoundError
  | PermissionError
  | IsADirectoryError
  | ConnectionRefusedError
  | SocketTimeout
  | SSLError
  | SSLCertVerificationError
  | GaiError
  | ValueError string
  | UnicodeDecodeError
  | KeyError string
  | CryptoError

fun is_SSLError :: "exn \<Rightarrow> bool" where
  "is_SSLError SSLError = True"
| "is_SSLError SSLCertVerificationError = True"
| "is_SSLError _ = False"

fun is_gaierror :: "exn \<Rightarrow> bool" where
  "is_gaierror GaiError = True"
| "is_gaierror _ = False"

fun is_ValueError :: "exn \<Rightarrow> bool" where
  "is_ValueError (ValueError _) = True"
| "is_ValueError UnicodeDecodeError = True"
| "is_ValueError SSLCertVerificationError = True"
| "is_ValueError _ = False"

text \<open>The message of the \<^verbatim>\<open>ValueError\<close> that unpacking a one-element list into two
  names raises.\<close>

definition unpack_error :: exn where
  "unpack_error = ValueError ''not enough values to unpack (expected 2, got 1)''"

subsection \<open>Strings\<close>

text \<open>\<^verbatim>\<open>str.isspace\<close> on the characters below 256.\<close>

definition is_space :: "char \<Rightarrow> bool" where
  "is_space c \<longleftrightarrow>
     (let n = (of_char c :: nat)
      in (9 \<le> n \<and> n \<le> 13) \<or> (28 \<le> n \<and> n \<le> 32) \<or> n = 133 \<or> n = 160)"

text \<open>\<^verbatim>\<open>s.strip()\<close>\<close>

definition strip :: "string \<Rightarrow> string" where
  "strip s = rev (dropWhile is_space (rev (dropWhile is_space s)))"

text \<open>\<^verbatim>\<open>s.startswith(p)\<close>\<close>

definition startswith :: "string \<Rightarrow> string \<Rightarrow> bool" where
  "startswith s p \<longleftrightarrow> take (length p) s = p"

text \<open>\<^verbatim>\<open>s.split(None, 1)\<close>: leading whitespace is skipped, the first word ends at
  the first whitespace character, the whitespace after it is skipped and whatever
  remains, if anything, is the second element.\<close>

definition split_ws1 :: "string \<Rightarrow> string list" where
  "split_ws1 s =
     (let s1 = dropWhile is_space s
      in if s1 = [] then []
         else
           let word = takeWhile (\<lambda>c. \<not> is_space c) s1;
               rest = dropWhile is_space (dropWhile (\<lambda>c. \<not> is_space c) s1)
           in if rest = [] then [word] else [word, rest])"

text \<open>\<^verbatim>\<open>s.split(sep)\<close> for a separator that is not empty: the leftmost occurrence of
  the separator ends the first piece.\<close>

function split_sep :: "string \<Rightarrow> string \<Rightarrow> string list" where
  "split_sep sep [] = [[]]"
| "split_sep sep (c # cs) =
     (if sep \<noteq> [] \<and> take (length sep) (c # cs) = sep
      then [] # split_sep sep (drop (length sep - 1) cs)
      else (case split_sep sep cs of
              [] \<Rightarrow> [[c]]
            | piece # pieces \<Rightarrow> (c # piece) # pieces))"
  by pat_completeness auto
termination
  by (relation "measure (\<lambda>(sep, s). length s)") auto

text \<open>\<^verbatim>\<open>s.split(":", 1)\<close>\<close>

definition split_colon1 :: "string \<Rightarrow> string list" where
  "split_colon1 s =
     (if CHR '':'' \<in> set s
      then [takeWhile (\<lambda>c. c \<noteq> CHR '':'') s, tl (dropWhile (\<lambda>c. c \<noteq> CHR '':'') s)]
      else [s])"

text \<open>Iterating over a text file opened with universal newlines: every line keeps its
  terminator, which reads as a line feed.\<close>

fun text_lines :: "string \<Rightarrow> string list" where
  "text_lines [] = []"
| "text_lines (c # cs) =
     (if c = CHR 0x0A then [CHR 0x0A] # text_lines cs
      else if c = CHR 0x0D then
        (case cs of
           d # ds \<Rightarrow> if d = CHR 0x0A then [CHR 0x0A] # text_lines ds
                     else [CHR 0x0A] # text_lines cs
         | [] \<Rightarrow> [[CHR 0x0A]])
      else (case text_lines cs of
              [] \<Rightarrow> [[c]]
            | l # ls \<Rightarrow> (c # l) # ls))"

subsection \<open>Ordered dictionaries\<close>

text \<open>An \<^verbatim>\<open>OrderedDict\<close> (and a \<^verbatim>\<open>dict\<close>, which keeps insertion order too) is a list
  of pairs with distinct keys. \<^verbatim>\<open>d[k] = v\<close> replaces the value of a key that is present
  where it stands and appends a new key.\<close>

fun od_set :: "('k \<times> 'v) list \<Rightarrow> 'k \<Rightarrow> 'v \<Rightarrow> ('k \<times> 'v) list" where
  "od_set [] k v = [(k, v)]"
| "od_set ((k', v') # kvs) k v =
     (if k' = k then (k, v) # kvs else (k', v') # od_set kvs k v)"

text \<open>\<^verbatim>\<open>d[k]\<close>\<close>

definition od_get :: "(string \<times> 'v) list \<Rightarrow> string \<Rightarrow> exn + 'v" where
  "od_get d k = (case map_of d k of None \<Rightarrow> Inl (KeyError k) | Some v \<Rightarrow> Inr v)"

text \<open>\<^verbatim>\<open>d.setdefault(k, []).append(v)\<close>\<close>

fun setdefault_append :: "('k \<times> 'v list) list \<Rightarrow> 'k \<Rightarrow> 'v \<Rightarrow> ('k \<times> 'v list) list" where
  "setdefault_append [] k v = [(k, [v])]"
| "setdefault_append ((k', vs) # kvs) k v =
     (if k' = k then (k', vs @ [v]) # kvs else (k', vs) # setdefault_append kvs k v)"

section \<open>The file system\<close>

text \<open>A path is a directory and the name of an entry in it.\<close>

datatype path = Path (parent: string) (name: string)

datatype node = File string | Dir

text \<open>
  \<open>nodes\<close> maps a path to what is there. \<open>unreadable\<close> are the files whose contents the
  process may not read, \<open>locked\<close> the entries it may not remove, rename or replace.
\<close>

record filesystem =
  nodes :: "path \<rightharpoonup> node"
  unreadable :: "path set"
  locked :: "path set"

text \<open>\<^verbatim>\<open>open(p)\<close> followed by reading, and \<^verbatim>\<open>p.read_bytes()\<close>\<close>

definition read_file :: "filesystem \<Rightarrow> path \<Rightarrow> exn + string" where
  "read_file f p =
     (case nodes f p of
        None \<Rightarrow> Inl FileNotFoundError
      | Some Dir \<Rightarrow> Inl IsADirectoryError
      | Some (File c) \<Rightarrow> if p \<in> unreadable f then Inl PermissionError else Inr c)"

text \<open>\<^verbatim>\<open>p.unlink()\<close>\<close>

definition unlink :: "filesystem \<Rightarrow> path \<Rightarrow> exn + filesystem" where
  "unlink f p =
     (case nodes f p of
        None \<Rightarrow> Inl FileNotFoundError
      | Some Dir \<Rightarrow> Inl IsADirectoryError
      | Some (File c) \<Rightarrow>
          if p \<in> locked f then Inl PermissionError
          else Inr (f\<lparr>nodes := (nodes f)(p := None)\<rparr>))"

text \<open>\<^verbatim>\<open>p.is_file()\<close>\<close>

definition is_file :: "filesystem \<Rightarrow> path \<Rightarrow> bool" where
  "is_file f p = (case nodes f p of Some (File c) \<Rightarrow> True | _ \<Rightarrow> False)"

text \<open>\<^verbatim>\<open>src.rename(dst)\<close>: a file that is at the destination is replaced.\<close>

definition rename :: "filesystem \<Rightarrow> path \<Rightarrow> path \<Rightarrow> exn + filesystem" where
  "rename f src dst =
     (case nodes f src of
        None \<Rightarrow> Inl FileNotFoundError
      | Some n \<Rightarrow>
          if src \<in> locked f \<or> dst \<in> locked f then Inl PermissionError
          else if nodes f dst = Some Dir then Inl IsADirectoryError
          else if src = dst then Inr f
          else Inr (f\<lparr>nodes := (nodes f)(dst := Some n, src := None)\<rparr>))"

subsection \<open>\<^verbatim>\<open>pathlib\<close> names\<close>

text \<open>\<^verbatim>\<open>PurePath.suffix\<close>: from the last dot on, unless that dot is the first or the last
  character of the name.\<close>

definition py_suffix :: "string \<Rightarrow> string" where
  "py_suffix n =
     (let after = takeWhile (\<lambda>c. c \<noteq> CHR ''.'') (rev n)
      in if CHR ''.'' \<in> set n \<and> after \<noteq> [] \<and> length after + 1 < length n
         then CHR ''.'' # rev after else [])"

text \<open>\<^verbatim>\<open>PurePath.stem\<close>\<close>

definition stem :: "path \<Rightarrow> string" where
  "stem p = take (length (name p) - length (py_suffix (name p))) (name p)"

text \<open>\<^verbatim>\<open>PurePath.with_suffix\<close>, for a suffix that is a dot and more.\<close>

definition with_suffix :: "path \<Rightarrow> string \<Rightarrow> path" where
  "with_suffix p sfx =
     (let old = py_suffix (name p)
      in if old = [] then Path (parent p) (name p @ sfx)
         else Path (parent p) (take (length (name p) - length old) (name p) @ sfx))"

text \<open>The names that the pattern \<^verbatim>\<open>*.pem\<close> matches.\<close>

definition matches_pem :: "string \<Rightarrow> bool" where
  "matches_pem n \<longleftrightarrow> 4 \<le> length n \<and> drop (length n - 4) n = ''.pem''"

section \<open>Certificates\<close>

text \<open>
  What the script reads of a parsed certificate: its extensions, each with its short
  name and with the string that \<^verbatim>\<open>_subjectAltNameString\<close> gives for it, and the
  components of its subject. The value of a subject component is a byte string; it is
  given here by the text it decodes to, or \<open>NotUtf8\<close> when it is not UTF-8.
\<close>

datatype extension = Extension (short_name: string) (subjectAltNameString: string)

datatype bytes = Utf8 string | NotUtf8

datatype x509 = X509 (extensions: "extension list") (subject_components: "(string \<times> bytes) list")

text \<open>The inner loop of \<^verbatim>\<open>get_dns_names\<close> over the components of the string.\<close>

fun collect_dns :: "string list \<Rightarrow> string list \<Rightarrow> exn + string list" where
  "collect_dns dns_names [] = Inr dns_names"
| "collect_dns dns_names (component # rest) =
     (case split_colon1 component of
        [name_type, nm] \<Rightarrow>
          collect_dns (if name_type = ''DNS'' then dns_names @ [nm] else dns_names) rest
      | _ \<Rightarrow> Inl unpack_error)"

text \<open>The first loop: the first extension named \<^verbatim>\<open>subjectAltName\<close> decides.\<close>

fun scan_extensions :: "extension list \<Rightarrow> (exn + string list) option" where
  "scan_extensions [] = None"
| "scan_extensions (ext # exts) =
     (if short_name ext = ''subjectAltName''
      then Some (collect_dns [] (split_sep '', '' (subjectAltNameString ext)))
      else scan_extensions exts)"

text \<open>The second loop: the first subject component labelled \<^verbatim>\<open>CN\<close> decides.\<close>

fun scan_subject :: "(string \<times> bytes) list \<Rightarrow> (exn + string list) option" where
  "scan_subject [] = None"
| "scan_subject ((label, val) # comps) =
     (if label = ''CN''
      then Some (case val of Utf8 s \<Rightarrow> Inr [s] | NotUtf8 \<Rightarrow> Inl UnicodeDecodeError)
      else scan_subject comps)"

definition no_names_error :: exn where
  "no_names_error = ValueError
     ''the certificate does not contain a valid Common Name, nor valid Subject Alternative Names''"

definition get_dns_names :: "x509 \<Rightarrow> exn + string list" where
  "get_dns_names cert =
     (case scan_extensions (extensions cert) of
        Some r \<Rightarrow> r
      | None \<Rightarrow>
          (case scan_subject (subject_components cert) of
             Some r \<Rightarrow> r
           | None \<Rightarrow> Inl no_names_error))"

section \<open>Configuration, environment and state\<close>

record config =
  server_ip :: string
  haproxy_backend_map :: path
  haproxy_certs_dir :: string
  contact_email :: string
  letsencrypt_use_staging :: bool
  letsencrypt_fake_cert :: "string option"

text \<open>An SSL context is known by the trust anchor files loaded into it.\<close>

datatype ssl_context = SSLContext (verify_locations: "string list")

text \<open>
  What the script asks of the world outside it: the resolver, loading a trust anchor
  file, wrapping a socket, the connection with its TLS handshake, the issuance client
  (which may change the file system), the parser of PEM certificates and the order in
  which a directory lists its entries. An answer is a value or the exception raised.
\<close>

record env =
  gethostbyname :: "string \<Rightarrow> exn + string"
  load_verify_locations :: "string \<Rightarrow> exn option"
  wrap_socket :: "ssl_context \<Rightarrow> string \<Rightarrow> exn option"
  connect :: "ssl_context \<Rightarrow> string \<Rightarrow> exn option"
  subprocess_run :: "string list \<Rightarrow> filesystem \<Rightarrow> (exn + int) \<times> filesystem"
  load_certificate :: "string \<Rightarrow> exn + x509"
  scandir :: "filesystem \<Rightarrow> string \<Rightarrow> string list"

datatype event = Resolve string | Connect string | Run "string list"

text \<open>
  The state of a run: the file system, the memo \<^verbatim>\<open>get_ssl_context.ctx\<close> and the trace
  of what went out to the network and to the issuance client.
\<close>

record world =
  fs :: filesystem
  ctx_memo :: "ssl_context option"
  trace :: "event list"

section \<open>The script\<close>

subsection \<open>\<^verbatim>\<open>get_all_domains\<close>\<close>

fun parse_lines :: "(string \<times> string) list \<Rightarrow> string list \<Rightarrow> exn + (string \<times> string) list" where
  "parse_lines domains [] = Inr domains"
| "parse_lines domains (line # rest) =
     (let line = strip line
      in if line \<noteq> [] \<and> \<not> startswith line ''#''
         then (case split_ws1 line of
                 [domain, backend] \<Rightarrow> parse_lines (od_set domains domain backend) rest
               | _ \<Rightarrow> Inl unpack_error)
         else parse_lines domains rest)"

definition get_all_domains :: "config \<Rightarrow> world \<Rightarrow> exn + (string \<times> string) list" where
  "get_all_domains cfg w =
     (case read_file (fs w) (haproxy_backend_map cfg) of
        Inl e \<Rightarrow> Inl e
      | Inr text \<Rightarrow> parse_lines [] (text_lines text))"

subsection \<open>\<^verbatim>\<open>get_ssl_context\<close>\<close>

definition get_ssl_context :: "env \<Rightarrow> config \<Rightarrow> world \<Rightarrow> (exn + ssl_context) \<times> world" where
  "get_ssl_context ev cfg w =
     (case ctx_memo w of
        Some c \<Rightarrow> (Inr c, w)
      | None \<Rightarrow>
          let w0 = w\<lparr>ctx_memo := Some (SSLContext [])\<rparr>;
              system = ''/etc/ssl/certs/ca-certificates.crt''
          in (case load_verify_locations ev system of
                Some e \<Rightarrow> (Inl e, w0)
              | None \<Rightarrow>
                  let w1 = w\<lparr>ctx_memo := Some (SSLContext [system])\<rparr>
                  in if letsencrypt_use_staging cfg \<and> letsencrypt_fake_cert cfg \<noteq> None
                     then (case load_verify_locations ev (the (letsencrypt_fake_cert cfg)) of
                             Some e \<Rightarrow> (Inl e, w1)
                           | None \<Rightarrow>
                               let c = SSLContext [system, the (letsencrypt_fake_cert cfg)]
                               in (Inr c, w\<lparr>ctx_memo := Some c\<rparr>))
                     else (Inr (SSLContext [system]), w1)))"

subsection \<open>\<^verbatim>\<open>has_valid_cert\<close>\<close>

definition has_valid_cert ::
  "env \<Rightarrow> config \<Rightarrow> string \<Rightarrow> ssl_context option \<Rightarrow> world \<Rightarrow> (exn + bool) \<times> world" where
  "has_valid_cert ev cfg domain ctx w =
     (case (case ctx of None \<Rightarrow> get_ssl_context ev cfg w | Some c \<Rightarrow> (Inr c, w)) of
        (Inl e, w1) \<Rightarrow> (Inl e, w1)
      | (Inr c, w1) \<Rightarrow>
          (case wrap_socket ev c domain of
             Some e \<Rightarrow> (Inl e, w1)
           | None \<Rightarrow>
               let w2 = w1\<lparr>trace := trace w1 @ [Connect domain]\<rparr>
               in (case connect ev c domain of
                     Some e \<Rightarrow> if is_SSLError e then (Inr False, w2) else (Inl e, w2)
                   | None \<Rightarrow> (Inr True, w2))))"

subsection \<open>\<^verbatim>\<open>has_valid_dns_record\<close>\<close>

definition has_valid_dns_record ::
  "env \<Rightarrow> config \<Rightarrow> string \<Rightarrow> world \<Rightarrow> (exn + bool) \<times> world" where
  "has_valid_dns_record ev cfg domain w =
     (let w1 = w\<lparr>trace := trace w @ [Resolve domain]\<rparr>
      in case gethostbyname ev domain of
           Inl e \<Rightarrow> if is_gaierror e then (Inr False, w1) else (Inl e, w1)
         | Inr domain_ip \<Rightarrow> (Inr (domain_ip = server_ip cfg), w1))"

subsection \<open>\<^verbatim>\<open>get_certless_domains\<close>\<close>

text \<open>The list comprehension: \<^verbatim>\<open>and\<close> asks for the certificate only when the name
  resolves to this server.\<close>

fun get_certless_domains ::
  "env \<Rightarrow> config \<Rightarrow> string list \<Rightarrow> world \<Rightarrow> (exn + string list) \<times> world" where
  "get_certless_domains ev cfg [] w = (Inr [], w)"
| "get_certless_domains ev cfg (domain # rest) w =
     (case has_valid_dns_record ev cfg domain w of
        (Inl e, w1) \<Rightarrow> (Inl e, w1)
      | (Inr False, w1) \<Rightarrow> get_certless_domains ev cfg rest w1
      | (Inr True, w1) \<Rightarrow>
          (case has_valid_cert ev cfg domain None w1 of
             (Inl e, w2) \<Rightarrow> (Inl e, w2)
           | (Inr valid, w2) \<Rightarrow>
               (case get_certless_domains ev cfg rest w2 of
                  (Inl e, w3) \<Rightarrow> (Inl e, w3)
                | (Inr ds, w3) \<Rightarrow> (Inr (if valid then ds else domain # ds), w3))))"

subsection \<open>\<^verbatim>\<open>request_cert\<close>\<close>

definition letsencrypt_command :: "config \<Rightarrow> string list \<Rightarrow> string list" where
  "letsencrypt_command cfg domains =
     foldl (\<lambda>command domain. command @ [''-d'', domain])
       ([''letsencrypt'', ''certonly'',
         ''--email'', contact_email cfg,
         ''--authenticator'', ''standalone'',
         ''--standalone-supported-challenges'', ''http-01'',
         ''--http-01-port'', ''8080'',
         ''--non-interactive'',
         ''--agree-tos'',
         ''--keep'',
         ''--expand'']
        @ (if letsencrypt_use_staging cfg then [''--staging''] else []))
       domains"

definition request_cert :: "env \<Rightarrow> config \<Rightarrow> string list \<Rightarrow> world \<Rightarrow> (exn + int) \<times> world" where
  "request_cert ev cfg domains w =
     (let command = letsencrypt_command cfg domains;
          (result, f) = subprocess_run ev command (fs w)
      in (result, w\<lparr>fs := f, trace := trace w @ [Run command]\<rparr>))"

subsection \<open>\<^verbatim>\<open>request_new_certs\<close>\<close>

fun group_by_backend ::
  "(string \<times> string) list \<Rightarrow> (string \<times> string list) list \<Rightarrow> string list
     \<Rightarrow> exn + (string \<times> string list) list" where
  "group_by_backend all_domains domains_by_backend [] = Inr domains_by_backend"
| "group_by_backend all_domains domains_by_backend (domain # rest) =
     (case od_get all_domains domain of
        Inl e \<Rightarrow> Inl e
      | Inr backend \<Rightarrow>
          group_by_backend all_domains (setdefault_append domains_by_backend backend domain) rest)"

text \<open>The second loop: whatever a call raises is caught and dropped.\<close>

fun request_each :: "env \<Rightarrow> config \<Rightarrow> string list list \<Rightarrow> world \<Rightarrow> world" where
  "request_each ev cfg [] w = w"
| "request_each ev cfg (domains # rest) w =
     request_each ev cfg rest (snd (request_cert ev cfg domains w))"

definition request_new_certs ::
  "env \<Rightarrow> config \<Rightarrow> (string \<times> string) list \<Rightarrow> world \<Rightarrow> exn option \<times> world" where
  "request_new_certs ev cfg all_domains w =
     (case get_certless_domains ev cfg (map fst all_domains) w of
        (Inl e, w1) \<Rightarrow> (Some e, w1)
      | (Inr certless_domains, w1) \<Rightarrow>
          (case group_by_backend all_domains [] certless_domains of
             Inl e \<Rightarrow> (Some e, w1)
           | Inr domains_by_backend \<Rightarrow>
               (None, request_each ev cfg (map snd domains_by_backend) w1)))"

subsection \<open>\<^verbatim>\<open>remove_cert\<close>\<close>

definition renewal_config :: "path \<Rightarrow> path" where
  "renewal_config cert_path = Path ''/etc/letsencrypt/renewal'' (stem cert_path @ ''.conf'')"

definition remove_cert :: "filesystem \<Rightarrow> path \<Rightarrow> exn option \<times> filesystem" where
  "remove_cert f cert_path =
     (case unlink f cert_path of
        Inl e \<Rightarrow> (Some e, f)
      | Inr f1 \<Rightarrow>
          if is_file f1 (renewal_config cert_path)
          then (case rename f1 (renewal_config cert_path)
                       (with_suffix (renewal_config cert_path) ''.disabled'') of
                  Inl e \<Rightarrow> (Some e, f1)
                | Inr f2 \<Rightarrow> (None, f2))
          else (None, f1))"

subsection \<open>\<^verbatim>\<open>clean_up_certs\<close>\<close>

text \<open>\<^verbatim>\<open>config.haproxy_certs_dir.glob("*.pem")\<close>\<close>

definition glob_pem :: "env \<Rightarrow> filesystem \<Rightarrow> string \<Rightarrow> path list" where
  "glob_pem ev f d = map (Path d) (filter matches_pem (scandir ev f d))"

fun clean_up_loop :: "env \<Rightarrow> string set \<Rightarrow> path list \<Rightarrow> filesystem \<Rightarrow> exn option \<times> filesystem" where
  "clean_up_loop ev active_domains [] f = (None, f)"
| "clean_up_loop ev active_domains (cert_path # rest) f =
     (case read_file f cert_path of
        Inl e \<Rightarrow> (Some e, f)
      | Inr pem \<Rightarrow>
          (case load_certificate ev pem of
             Inl e \<Rightarrow> (Some e, f)
           | Inr cert \<Rightarrow>
               (case get_dns_names cert of
                  Inl e \<Rightarrow>
                    if is_ValueError e then clean_up_loop ev active_domains rest f
                    else (Some e, f)
                | Inr names \<Rightarrow>
                    let dns_names = set names
                    in if \<exists>nm\<in>dns_names. CHR ''*'' \<in> set nm
                       then clean_up_loop ev active_domains rest f
                       else if dns_names \<inter> active_domains = {}
                       then (case remove_cert f cert_path of
                               (Some e, f1) \<Rightarrow> (Some e, f1)
                             | (None, f1) \<Rightarrow> clean_up_loop ev active_domains rest f1)
                       else clean_up_loop ev active_domains rest f)))"

definition clean_up_certs ::
  "env \<Rightarrow> config \<Rightarrow> (string \<times> string) list \<Rightarrow> world \<Rightarrow> exn option \<times> world" where
  "clean_up_certs ev cfg all_domains w =
     (let active_domains = set (map fst all_domains);
          (r, f) = clean_up_loop ev active_domains
                     (glob_pem ev (fs w) (haproxy_certs_dir cfg)) (fs w)
      in (r, w\<lparr>fs := f\<rparr>))"

subsection \<open>\<^verbatim>\<open>main\<close>\<close>

definition main :: "env \<Rightarrow> config \<Rightarrow> world \<Rightarrow> exn option \<times> world" where
  "main ev cfg w =
     (case get_all_domains cfg w of
        Inl e \<Rightarrow> (Some e, w)
      | Inr all_domains \<Rightarrow>
          (case request_new_certs ev cfg all_domains w of
             (Some e, w1) \<Rightarrow> (Some e, w1)
           | (None, w1) \<Rightarrow> clean_up_certs ev cfg all_domains w1))"

section \<open>Example inputs\<close>

definition example_cfg :: config where
  "example_cfg =
     \<lparr>server_ip = ''192.0.2.1'',
      haproxy_backend_map = Path ''/etc/haproxy'' ''backend.map'',
      haproxy_certs_dir = ''/etc/haproxy/certs'',
      contact_email = ''ops@example.org'',
      letsencrypt_use_staging = False,
      letsencrypt_fake_cert = None\<rparr>"

definition empty_fs :: filesystem where
  "empty_fs = \<lparr>nodes = Map.empty, unreadable = {}, locked = {}\<rparr>"

text \<open>The state in which a run starts: nothing memoized, nothing sent.\<close>

definition start_world :: "filesystem \<Rightarrow> world" where
  "start_world f = \<lparr>fs = f, ctx_memo = None, trace = []\<rparr>"

text \<open>An environment in which no name resolves, every connection succeeds, the issuance
  client does nothing and no file parses as a certificate.\<close>

definition quiet_env :: env where
  "quiet_env =
     \<lparr>gethostbyname = (\<lambda>domain. Inl GaiError),
      load_verify_locations = (\<lambda>cafile. None),
      wrap_socket = (\<lambda>c domain. None),
      connect = (\<lambda>c domain. None),
      subprocess_run = (\<lambda>command f. (Inr 0, f)),
      load_certificate = (\<lambda>pem. Inl CryptoError),
      scandir = (\<lambda>f d. [])\<rparr>"

text \<open>Nothing listens on port 443.\<close>

definition refusing_env :: env where
  "refusing_env = quiet_env\<lparr>connect := (\<lambda>c domain. Some ConnectionRefusedError)\<rparr>"

text \<open>The server presents a certificate that does not verify.\<close>

definition expired_env :: env where
  "expired_env = quiet_env\<lparr>connect := (\<lambda>c domain. Some SSLCertVerificationError)\<rparr>"

text \<open>The routing of the scenario: \<open>a.example\<close> and \<open>b.example\<close> resolve to this server
  and have no valid certificate, \<open>c.example\<close> has one, \<open>d.example\<close> resolves elsewhere.\<close>

definition scenario_env :: env where
  "scenario_env =
     quiet_env
       \<lparr>gethostbyname :=
          (\<lambda>domain. if domain = ''d.example'' then Inr ''198.51.100.7'' else Inr ''192.0.2.1''),
        connect :=
          (\<lambda>c domain. if domain = ''c.example'' then None else Some SSLCertVerificationError)\<rparr>"

definition scenario_domains :: "(string \<times> string) list" where
  "scenario_domains = [(''a.example'', ''b1''), (''b.example'', ''b1''), (''c.example'', ''b2'')]"

text \<open>A file system that holds the routing table with the given text and nothing
  else.\<close>

definition routing_fs :: "string \<Rightarrow> filesystem" where
  "routing_fs text =
     \<lparr>nodes = [haproxy_backend_map example_cfg \<mapsto> File text], unreadable = {}, locked = {}\<rparr>"

text \<open>A certificate directory with a file that is no certificate and a certificate for
  \<open>old.example\<close>, with its renewal configuration; the directory is listed in the
  given order.\<close>

definition bad_pem :: path where
  "bad_pem = Path ''/etc/haproxy/certs'' ''bad.pem''"

definition old_pem :: path where
  "old_pem = Path ''/etc/haproxy/certs'' ''old.pem''"

definition old_cert :: x509 where
  "old_cert = X509 [Extension ''subjectAltName'' ''DNS:old.example''] [(''CN'', Utf8 ''old.example'')]"

definition certs_fs :: filesystem where
  "certs_fs =
     \<lparr>nodes = [bad_pem \<mapsto> File ''junk'', old_pem \<mapsto> File ''old'',
               Path ''/etc/letsencrypt/renewal'' ''old.conf'' \<mapsto> File ''renew old''],
      unreadable = {}, locked = {}\<rparr>"

text \<open>A certificate without a subject alternative name and without a common name, and
  one whose subject alternative name is a directory name.\<close>

definition noname_cert :: x509 where
  "noname_cert = X509 [Extension ''basicConstraints'' ''CA:FALSE''] [(''O'', Utf8 ''Example'')]"

definition dirname_cert :: x509 where
  "dirname_cert =
     X509 [Extension ''subjectAltName'' ''DirName:C = US, O = Example''] [(''CN'', Utf8 ''old.example'')]"

text \<open>A certificate whose subject alternative name holds an address only.\<close>

definition ip_cert :: x509 where
  "ip_cert =
     X509 [Extension ''basicConstraints'' ''CA:FALSE'',
           Extension ''subjectAltName'' ''IP Address:192.0.2.1'']
          [(''CN'', Utf8 ''old.example'')]"

definition certs_env :: "string list \<Rightarrow> env" where
  "certs_env listing =
     quiet_env
       \<lparr>load_certificate :=
          (\<lambda>pem. if pem = ''old'' then Inr old_cert
                 else if pem = ''noname'' then Inr noname_cert
                 else if pem = ''dirname'' then Inr dirname_cert
                 else if pem = ''ip'' then Inr ip_cert
                 else Inl CryptoError),
        scandir := (\<lambda>f d. if d = ''/etc/haproxy/certs'' then listing else [])\<rparr>"

text \<open>A certificate whose subject alternative name holds one URI, with a comma and a
  space in it, and no DNS name.\<close>

definition uri_cert :: x509 where
  "uri_cert =
     X509 [Extension ''subjectAltName'' ''URI:http://x/a, DNS:evil.example'']
          [(''CN'', Utf8 ''old.example'')]"

text \<open>A directory with those two certificates.\<close>

definition dirname_pem :: path where
  "dirname_pem = Path ''/etc/haproxy/certs'' ''dirname.pem''"

definition ip_pem :: path where
  "ip_pem = Path ''/etc/haproxy/certs'' ''ip.pem''"

definition san_fs :: filesystem where
  "san_fs =
     \<lparr>nodes = [dirname_pem \<mapsto> File ''dirname'', ip_pem \<mapsto> File ''ip''],
      unreadable = {}, locked = {}\<rparr>"

text \<open>A directory with two certificates for \<open>old.example\<close>, the first of which may not
  be removed.\<close>

definition older_pem :: path where
  "older_pem = Path ''/etc/haproxy/certs'' ''older.pem''"

definition locked_fs :: filesystem where
  "locked_fs =
     \<lparr>nodes = [old_pem \<mapsto> File ''old'', older_pem \<mapsto> File ''old''],
      unreadable = {}, locked = {old_pem}\<rparr>"

text \<open>A directory with a certificate that has no name and a certificate for
  \<open>old.example\<close>.\<close>

definition noname_pem :: path where
  "noname_pem = Path ''/etc/haproxy/certs'' ''noname.pem''"

definition noname_fs :: filesystem where
  "noname_fs =
     \<lparr>nodes = [noname_pem \<mapsto> File ''noname'', old_pem \<mapsto> File ''old''],
      unreadable = {}, locked = {}\<rparr>"

section \<open>Auxiliary notions\<close>

text \<open>The context that \<open>get_ssl_context\<close> builds when nothing is memoized.\<close>

definition fresh_context :: "env \<Rightarrow> config \<Rightarrow> exn + ssl_context" where
  "fresh_context ev cfg = fst (get_ssl_context ev cfg (start_world empty_fs))"

text \<open>The memo is empty or holds that context.\<close>

definition memo_consistent :: "env \<Rightarrow> config \<Rightarrow> world \<Rightarrow> bool" where
  "memo_consistent ev cfg w \<longleftrightarrow>
     (case ctx_memo w of None \<Rightarrow> True | Some c \<Rightarrow> fresh_context ev cfg = Inr c)"

text \<open>The condition of the list comprehension in \<open>get_certless_domains\<close>, asked in a
  given state.\<close>

definition needs_certificate :: "env \<Rightarrow> config \<Rightarrow> world \<Rightarrow> string \<Rightarrow> bool" where
  "needs_certificate ev cfg w d \<longleftrightarrow>
     fst (has_valid_dns_record ev cfg d w) = Inr True
     \<and> fst (has_valid_cert ev cfg d None w) = Inr False"

text \<open>The routing table maps domain \<open>d\<close> to backend \<open>b\<close>.\<close>

definition backend_of :: "(string \<times> string) list \<Rightarrow> string \<Rightarrow> string \<Rightarrow> bool" where
  "backend_of all_domains b d \<longleftrightarrow> map_of all_domains d = Some b"

text \<open>A line that \<open>get_all_domains\<close> passes over: blank, or a comment.\<close>

definition skipped :: "string \<Rightarrow> bool" where
  "skipped l \<longleftrightarrow> strip l = [] \<or> startswith (strip l) ''#''"

text \<open>A line that is not passed over and has no whitespace inside.\<close>

definition malformed :: "string \<Rightarrow> bool" where
  "malformed l \<longleftrightarrow> \<not> skipped l \<and> (\<forall>c\<in>set (strip l). \<not> is_space c)"

text \<open>The domain and the backend that a line gives.\<close>

definition line_entry :: "string \<Rightarrow> (string \<times> string) option" where
  "line_entry l = (case split_ws1 (strip l) of [domain, backend] \<Rightarrow> Some (domain, backend) | _ \<Rightarrow> None)"

text \<open>The entries of the lines that are not passed over, in order.\<close>

definition entries :: "string list \<Rightarrow> (string \<times> string) list" where
  "entries lines = List.map_filter line_entry (filter (\<lambda>l. \<not> skipped l) lines)"

text \<open>The path that \<open>remove_cert\<close> renames the renewal configuration to.\<close>

definition disabled_config :: "path \<Rightarrow> path" where
  "disabled_config cert_path = with_suffix (renewal_config cert_path) ''.disabled''"

text \<open>What \<open>clean_up_certs\<close> decides for one path before it acts: the exception it
  raises, or whether it calls \<open>remove_cert\<close>.\<close>

definition decide :: "env \<Rightarrow> string set \<Rightarrow> filesystem \<Rightarrow> path \<Rightarrow> exn + bool" where
  "decide ev active_domains f cert_path =
     (case read_file f cert_path of
        Inl e \<Rightarrow> Inl e
      | Inr pem \<Rightarrow>
          (case load_certificate ev pem of
             Inl e \<Rightarrow> Inl e
           | Inr cert \<Rightarrow>
               (case get_dns_names cert of
                  Inl e \<Rightarrow> if is_ValueError e then Inr False else Inl e
                | Inr names \<Rightarrow>
                    Inr (\<not> (\<exists>nm\<in>set names. CHR ''*'' \<in> set nm)
                         \<and> set names \<inter> active_domains = {}))))"

text \<open>\<^verbatim>\<open>sep.join(items)\<close>\<close>

fun join_sep :: "string \<Rightarrow> string list \<Rightarrow> string" where
  "join_sep sep [] = []"
| "join_sep sep [x] = x"
| "join_sep sep (x # y # ys) = x @ sep @ join_sep sep (y # ys)"

text \<open>The string that lists general names as \<^verbatim>\<open>type:value\<close> items separated by a comma
  and a space, which is the form \<^verbatim>\<open>_subjectAltNameString\<close> gives them.\<close>

definition general_names_string :: "(string \<times> string) list \<Rightarrow> string" where
  "general_names_string gns = join_sep '', '' (map (\<lambda>(l, v). l @ '':'' @ v) gns)"

text \<open>The string has a comma followed by a space in it.\<close>

fun has_comma_space :: "string \<Rightarrow> bool" where
  "has_comma_space [] \<longleftrightarrow> False"
| "has_comma_space [a] \<longleftrightarrow> False"
| "has_comma_space (a # b # cs) \<longleftrightarrow> (a = CHR '','' \<and> b = CHR '' '') \<or> has_comma_space (b # cs)"



section \<open>Properties\<close>

subsection \<open>The live certificate check\<close>

lemma get_ssl_context_example:
  "get_ssl_context expired_env example_cfg (start_world empty_fs) =
     (Inr (SSLContext [''/etc/ssl/certs/ca-certificates.crt'']),
      \<lparr>fs = empty_fs,
       ctx_memo = Some (SSLContext [''/etc/ssl/certs/ca-certificates.crt'']),
       trace = []\<rparr>)"
  by (simp add: get_ssl_context_def expired_env_def quiet_env_def example_cfg_def
      start_world_def Let_def)

text \<open>
  C3, as the code has it. Once the SSL context has been obtained and the socket has been
  wrapped, \<open>has_valid_cert\<close> returns true exactly when the connection with its handshake
  completes, returns false exactly when the connection raises \<^verbatim>\<open>ssl.SSLError\<close>, and
  raises every other exception of the connection to its caller.
\<close>

theorem has_valid_cert_outcomes:
  assumes "get_ssl_context ev cfg w = (Inr c, w1)"
    and "wrap_socket ev c domain = None"
  shows "(fst (has_valid_cert ev cfg domain None w) = Inr True \<longleftrightarrow> connect ev c domain = None)
    \<and> (fst (has_valid_cert ev cfg domain None w) = Inr False
         \<longleftrightarrow> (\<exists>e. connect ev c domain = Some e \<and> is_SSLError e))
    \<and> (\<forall>e. fst (has_valid_cert ev cfg domain None w) = Inl e
         \<longleftrightarrow> connect ev c domain = Some e \<and> \<not> is_SSLError e)"
  using assms by (auto simp: has_valid_cert_def Let_def split: option.splits)

theorem has_valid_cert_outcomes_witness:
  "wrap_socket expired_env (SSLContext [''/etc/ssl/certs/ca-certificates.crt'']) ''a.example'' = None
   \<and> fst (has_valid_cert expired_env example_cfg ''a.example'' None (start_world empty_fs))
       = Inr False"
  using has_valid_cert_outcomes [OF get_ssl_context_example, of "''a.example''"]
  by (simp add: expired_env_def quiet_env_def)

text \<open>
  C3, as the specification has it, fails when the connection is refused: that is an
  \<^verbatim>\<open>OSError\<close> which is not an \<^verbatim>\<open>ssl.SSLError\<close>, and \<open>has_valid_cert\<close> raises it.
\<close>

theorem has_valid_cert_connection_refused:
  "fst (has_valid_cert refusing_env example_cfg ''a.example'' None (start_world empty_fs))
     = Inl ConnectionRefusedError"
  by (simp add: has_valid_cert_def get_ssl_context_def refusing_env_def quiet_env_def
      example_cfg_def start_world_def Let_def)

subsection \<open>Which domains are queued\<close>

lemma get_ssl_context_fresh:
  "ctx_memo w = None \<Longrightarrow> fst (get_ssl_context ev cfg w) = fresh_context ev cfg"
  by (auto simp: get_ssl_context_def fresh_context_def start_world_def Let_def
      split: option.splits)

lemma get_ssl_context_memo:
  "ctx_memo w = None \<Longrightarrow> get_ssl_context ev cfg w = (Inr c, w1) \<Longrightarrow> ctx_memo w1 = Some c"
  by (auto simp: get_ssl_context_def Let_def split: option.splits if_splits)

lemma get_ssl_context_consistent:
  assumes "memo_consistent ev cfg w" and "get_ssl_context ev cfg w = (Inr c, w1)"
  shows "fresh_context ev cfg = Inr c \<and> memo_consistent ev cfg w1"
proof (cases "ctx_memo w")
  case None
  have "fresh_context ev cfg = Inr c"
    using get_ssl_context_fresh [OF None, of ev cfg] assms(2) by simp
  moreover have "ctx_memo w1 = Some c"
    using get_ssl_context_memo [OF None assms(2)] .
  ultimately show ?thesis by (simp add: memo_consistent_def)
next
  case (Some c')
  then have "c' = c" and "w1 = w"
    using assms(2) by (simp_all add: get_ssl_context_def)
  then show ?thesis
    using Some assms(1) by (simp add: memo_consistent_def)
qed

lemma has_valid_cert_value:
  assumes "memo_consistent ev cfg w" and "fresh_context ev cfg = Inr c"
  shows "fst (has_valid_cert ev cfg d None w) =
     (case wrap_socket ev c d of
        Some e \<Rightarrow> Inl e
      | None \<Rightarrow> (case connect ev c d of
                   Some e \<Rightarrow> if is_SSLError e then Inr False else Inl e
                 | None \<Rightarrow> Inr True))"
proof -
  obtain w1 where "get_ssl_context ev cfg w = (Inr c, w1)"
  proof (cases "ctx_memo w")
    case None
    from get_ssl_context_fresh [OF None, of ev cfg] assms(2)
    have "fst (get_ssl_context ev cfg w) = Inr c" by simp
    then show ?thesis using that by (cases "get_ssl_context ev cfg w") simp
  next
    case (Some c')
    with assms have "c' = c" by (simp add: memo_consistent_def)
    with Some show ?thesis using that by (simp add: get_ssl_context_def)
  qed
  then show ?thesis
    by (simp add: has_valid_cert_def Let_def split: option.splits)
qed

lemma has_valid_cert_consistent:
  assumes "memo_consistent ev cfg w" and "has_valid_cert ev cfg d None w = (Inr v, w1)"
  shows "memo_consistent ev cfg w1 \<and>
         (\<forall>w0. memo_consistent ev cfg w0 \<longrightarrow> fst (has_valid_cert ev cfg d None w0) = Inr v)"
proof -
  obtain r w' where g: "get_ssl_context ev cfg w = (r, w')"
    by (cases "get_ssl_context ev cfg w")
  with assms(2) obtain c where r: "r = Inr c"
    by (cases r) (simp_all add: has_valid_cert_def)
  from get_ssl_context_consistent [OF assms(1) g [unfolded r]]
  have fresh: "fresh_context ev cfg = Inr c" and cons: "memo_consistent ev cfg w'"
    by simp_all
  have "ctx_memo w1 = ctx_memo w'"
    using assms(2) g r
    by (auto simp: has_valid_cert_def Let_def split: option.splits if_splits)
  then have "memo_consistent ev cfg w1"
    using cons by (simp add: memo_consistent_def)
  moreover have "fst (has_valid_cert ev cfg d None w0) = Inr v" if "memo_consistent ev cfg w0" for w0
    using has_valid_cert_value [OF that fresh, of d]
      has_valid_cert_value [OF assms(1) fresh, of d] assms(2) by simp
  ultimately show ?thesis by blast
qed

lemma has_valid_dns_record_value:
  "fst (has_valid_dns_record ev cfg d w) = fst (has_valid_dns_record ev cfg d w0)"
  by (simp add: has_valid_dns_record_def Let_def split: sum.splits)

lemma has_valid_dns_record_consistent:
  "has_valid_dns_record ev cfg d w = (r, w1) \<Longrightarrow> memo_consistent ev cfg w
     \<Longrightarrow> memo_consistent ev cfg w1"
  by (auto simp: has_valid_dns_record_def Let_def memo_consistent_def split: sum.splits if_splits)

lemma get_certless_domains_filter:
  assumes "memo_consistent ev cfg w0" and "memo_consistent ev cfg w"
    and "get_certless_domains ev cfg all w = (Inr ds, w')"
  shows "ds = filter (needs_certificate ev cfg w0) all \<and> memo_consistent ev cfg w'"
  using assms(2,3)
proof (induction all arbitrary: w ds w')
  case Nil
  then show ?case by simp
next
  case (Cons d rest)
  obtain r w1 where dns: "has_valid_dns_record ev cfg d w = (r, w1)"
    by (cases "has_valid_dns_record ev cfg d w")
  have c1: "memo_consistent ev cfg w1"
    using has_valid_dns_record_consistent [OF dns Cons.prems(1)] .
  have r0: "fst (has_valid_dns_record ev cfg d w0) = r"
    using has_valid_dns_record_value [of ev cfg d w0 w] dns by simp
  show ?case
  proof (cases r)
    case (Inl e)
    with Cons.prems(2) dns show ?thesis by simp
  next
    case (Inr b)
    show ?thesis
    proof (cases b)
      case False
      with Inr dns Cons.prems(2) have "get_certless_domains ev cfg rest w1 = (Inr ds, w')"
        by simp
      from Cons.IH [OF c1 this] show ?thesis
        using r0 Inr False by (simp add: needs_certificate_def)
    next
      case True
      obtain r2 w2 where cert: "has_valid_cert ev cfg d None w1 = (r2, w2)"
        by (cases "has_valid_cert ev cfg d None w1")
      with Inr True dns Cons.prems(2) obtain v where r2: "r2 = Inr v"
        by (cases r2) simp_all
      from has_valid_cert_consistent [OF c1 cert [unfolded r2]] assms(1)
      have c2: "memo_consistent ev cfg w2"
        and v0: "fst (has_valid_cert ev cfg d None w0) = Inr v"
        by simp_all
      obtain r3 w3 where rec: "get_certless_domains ev cfg rest w2 = (r3, w3)"
        by (cases "get_certless_domains ev cfg rest w2")
      with Inr True dns cert r2 Cons.prems(2) obtain ds' where r3: "r3 = Inr ds'"
        by (cases r3) simp_all
      have ds: "ds = (if v then ds' else d # ds')" and w': "w' = w3"
        using Inr True dns cert r2 rec r3 Cons.prems(2) by simp_all
      from Cons.IH [OF c2 rec [unfolded r3]] show ?thesis
        using ds w' r0 Inr True v0 by (simp add: needs_certificate_def)
    qed
  qed
qed

lemma has_valid_dns_record_True:
  "fst (has_valid_dns_record ev cfg d w) = Inr True \<longleftrightarrow> gethostbyname ev d = Inr (server_ip cfg)"
  by (auto simp: has_valid_dns_record_def Let_def split: sum.splits)

text \<open>
  C2. In a run that starts with no memoized context and in which the probes raise
  nothing, a configured domain is in the list that \<open>get_certless_domains\<close> returns if
  and only if it resolves to the configured server address and the live certificate
  check for it returns false. A domain that does not resolve to this server is not in
  the list.
\<close>

theorem get_certless_domains_iff:
  assumes "ctx_memo w = None"
    and "get_certless_domains ev cfg (map fst all_domains) w = (Inr ds, w')"
  shows "(d \<in> set ds \<longleftrightarrow>
           d \<in> fst ` set all_domains
           \<and> gethostbyname ev d = Inr (server_ip cfg)
           \<and> fst (has_valid_cert ev cfg d None w) = Inr False)
       \<and> (gethostbyname ev d \<noteq> Inr (server_ip cfg) \<longrightarrow> d \<notin> set ds)"
proof -
  have "memo_consistent ev cfg w"
    using assms(1) by (simp add: memo_consistent_def)
  from get_certless_domains_filter [OF this this assms(2)]
  show ?thesis by (auto simp: needs_certificate_def has_valid_dns_record_True)
qed

lemma get_certless_domains_example:
  "get_certless_domains scenario_env example_cfg
      (map fst [(''a.example'', ''b1''), (''d.example'', ''b1'')]) (start_world empty_fs) =
     (Inr [''a.example''],
      snd (get_certless_domains scenario_env example_cfg
            (map fst [(''a.example'', ''b1''), (''d.example'', ''b1'')]) (start_world empty_fs)))"
  by (simp add: has_valid_dns_record_def has_valid_cert_def get_ssl_context_def
      scenario_env_def quiet_env_def example_cfg_def start_world_def Let_def)

theorem get_certless_domains_iff_witness:
  "ctx_memo (start_world empty_fs) = None
   \<and> gethostbyname scenario_env ''d.example'' \<noteq> Inr (server_ip example_cfg)
   \<and> ''d.example'' \<notin> set [''a.example'']
   \<and> fst (has_valid_cert scenario_env example_cfg ''a.example'' None (start_world empty_fs))
       = Inr False"
  using get_certless_domains_iff [OF _ get_certless_domains_example, of "''d.example''"]
    get_certless_domains_iff [OF _ get_certless_domains_example, of "''a.example''"]
  by (simp add: start_world_def scenario_env_def quiet_env_def example_cfg_def)

subsection \<open>Issuance by backend\<close>

lemma get_certless_domains_subset:
  "get_certless_domains ev cfg all w = (Inr ds, w') \<Longrightarrow> set ds \<subseteq> set all"
proof (induction all arbitrary: w ds w')
  case Nil
  then show ?case by simp
next
  case (Cons d rest)
  then show ?case
    by (fastforce split: prod.splits sum.splits bool.splits if_splits)
qed

lemma setdefault_append_keys:
  "fst ` set (setdefault_append acc k v) = insert k (fst ` set acc)"
  by (induction acc k v rule: setdefault_append.induct) auto

lemma setdefault_append_distinct:
  "distinct (map fst acc) \<Longrightarrow> distinct (map fst (setdefault_append acc k v))"
proof (induction acc k v rule: setdefault_append.induct)
  case (1 k v)
  then show ?case by simp
next
  case (2 k' vs kvs k v)
  then show ?case
    using setdefault_append_keys [of kvs k v] by auto
qed

lemma setdefault_append_lookup:
  "map_of (setdefault_append acc k v) k' =
     (if k' = k then Some ((case map_of acc k of None \<Rightarrow> [] | Some vs \<Rightarrow> vs) @ [v])
      else map_of acc k')"
  by (induction acc k v rule: setdefault_append.induct) auto

lemma group_by_backend_result:
  assumes "\<forall>d\<in>set ds. map_of all d \<noteq> None" and "distinct (map fst acc)"
  shows "\<exists>res. group_by_backend all acc ds = Inr res
           \<and> distinct (map fst res)
           \<and> fst ` set res = fst ` set acc \<union> {b. \<exists>d\<in>set ds. map_of all d = Some b}
           \<and> (\<forall>b. map_of res b =
                 (if b \<in> fst ` set acc \<or> (\<exists>d\<in>set ds. map_of all d = Some b)
                  then Some ((case map_of acc b of None \<Rightarrow> [] | Some vs \<Rightarrow> vs)
                             @ filter (backend_of all b) ds)
                  else None))"
  using assms
proof (induction ds arbitrary: acc)
  case Nil
  have some: "\<exists>vs. map_of acc b = Some vs" if "b \<in> fst ` set acc" for b
    using that by (cases "map_of acc b") (simp_all add: map_of_eq_None_iff)
  have none: "map_of acc b = None" if "b \<notin> fst ` set acc" for b
    using that by (simp add: map_of_eq_None_iff)
  have "map_of acc b =
          (if b \<in> fst ` set acc
           then Some ((case map_of acc b of None \<Rightarrow> [] | Some vs \<Rightarrow> vs) @ filter (backend_of all b) [])
           else None)" for b
    using some [of b] none [of b] by (cases "b \<in> fst ` set acc") auto
  then show ?case
    using Nil.prems(2) by (simp del: map_of_eq_Some_iff map_of_eq_None_iff)
next
  case (Cons d rest)
  from Cons.prems(1) obtain b where b: "map_of all d = Some b" by auto
  let ?acc = "setdefault_append acc b d"
  have "\<forall>d\<in>set rest. map_of all d \<noteq> None" using Cons.prems(1) by simp
  from Cons.IH [OF this setdefault_append_distinct [OF Cons.prems(2)], of b d]
  obtain res where res: "group_by_backend all ?acc rest = Inr res"
    and dist: "distinct (map fst res)"
    and keys: "fst ` set res = fst ` set ?acc \<union> {b. \<exists>d\<in>set rest. map_of all d = Some b}"
    and look: "\<And>b'. map_of res b' =
                 (if b' \<in> fst ` set ?acc \<or> (\<exists>d\<in>set rest. map_of all d = Some b')
                  then Some ((case map_of ?acc b' of None \<Rightarrow> [] | Some vs \<Rightarrow> vs)
                             @ filter (backend_of all b') rest)
                  else None)"
    by blast
  have 1: "group_by_backend all acc (d # rest) = Inr res"
    using b res by (simp add: od_get_def)
  have 2: "fst ` set res = fst ` set acc \<union> {b. \<exists>d\<in>set (d # rest). map_of all d = Some b}"
    using keys b by (auto simp: setdefault_append_keys)
  have 3: "map_of res b' =
             (if b' \<in> fst ` set acc \<or> (\<exists>d\<in>set (d # rest). map_of all d = Some b')
              then Some ((case map_of acc b' of None \<Rightarrow> [] | Some vs \<Rightarrow> vs)
                         @ filter (backend_of all b') (d # rest))
              else None)" for b'
  proof (cases "b' = b")
    case True
    then show ?thesis
      using look [of b'] b
      by (simp add: setdefault_append_keys setdefault_append_lookup backend_of_def)
  next
    case False
    then show ?thesis
      using look [of b'] b
      by (auto simp: setdefault_append_keys setdefault_append_lookup backend_of_def)
  qed
  from 1 dist 2 3 show ?case by blast
qed

lemma map_snd_by_lookup:
  "distinct (map fst res) \<Longrightarrow> map snd res = map (\<lambda>k. the (map_of res k)) (map fst res)"
proof (induction res)
  case Nil
  show ?case by simp
next
  case (Cons kv res)
  obtain k v where kv: "kv = (k, v)" by (cases kv)
  from Cons.prems kv have "k \<notin> fst ` set res" and "distinct (map fst res)" by auto
  then have "map (\<lambda>k'. the (map_of (kv # res) k')) (map fst res)
               = map (\<lambda>k'. the (map_of res k')) (map fst res)"
    using kv by (intro map_cong) auto
  with Cons.IH [OF \<open>distinct (map fst res)\<close>] kv show ?case by simp
qed

lemma request_each_trace:
  "trace (request_each ev cfg gs w) = trace w @ map (\<lambda>g. Run (letsencrypt_command cfg g)) gs"
  by (induction gs arbitrary: w) (simp_all add: request_cert_def Let_def split: prod.splits)

text \<open>
  C4. When \<open>get_certless_domains\<close> returns the list of domains that need a certificate,
  \<open>request_new_certs\<close> returns normally and runs the issuance client once for each
  backend that has such a domain, and for no other: the backends of the calls are
  distinct, they are exactly the backends of the domains in the list, and the call for
  a backend is given all the domains of the list that the routing table maps to it.
\<close>

theorem request_new_certs_groups:
  assumes "get_certless_domains ev cfg (map fst all_domains) w = (Inr ds, w1)"
  shows "\<exists>bs w2. request_new_certs ev cfg all_domains w = (None, w2)
           \<and> distinct bs
           \<and> set bs = {b. \<exists>d\<in>set ds. map_of all_domains d = Some b}
           \<and> trace w2 = trace w1
               @ map (\<lambda>b. Run (letsencrypt_command cfg (filter (backend_of all_domains b) ds))) bs"
proof -
  have "set ds \<subseteq> fst ` set all_domains"
    using get_certless_domains_subset [OF assms] by simp
  then have "\<forall>d\<in>set ds. map_of all_domains d \<noteq> None"
    by (auto simp: map_of_eq_None_iff)
  from group_by_backend_result [OF this, of "[]"]
  obtain res where res: "group_by_backend all_domains [] ds = Inr res"
    and dist: "distinct (map fst res)"
    and keys: "fst ` set res = {b. \<exists>d\<in>set ds. map_of all_domains d = Some b}"
    and look: "\<And>b. map_of res b =
                 (if \<exists>d\<in>set ds. map_of all_domains d = Some b
                  then Some (filter (backend_of all_domains b) ds) else None)"
    by auto
  let ?w2 = "request_each ev cfg (map snd res) w1"
  have run: "request_new_certs ev cfg all_domains w = (None, ?w2)"
    using assms res by (simp add: request_new_certs_def)
  have "map snd res = map (\<lambda>b. filter (backend_of all_domains b) ds) (map fst res)"
  proof -
    have "the (map_of res b) = filter (backend_of all_domains b) ds" if "b \<in> set (map fst res)" for b
      using that keys look [of b] by auto
    then show ?thesis
      using map_snd_by_lookup [OF dist] by (simp cong: map_cong)
  qed
  then have "trace ?w2 = trace w1
      @ map (\<lambda>b. Run (letsencrypt_command cfg (filter (backend_of all_domains b) ds))) (map fst res)"
    by (simp add: request_each_trace comp_def)
  with run dist keys show ?thesis
    by (intro exI [of _ "map fst res"] exI [of _ ?w2]) simp
qed


lemma get_certless_domains_scenario:
  "get_certless_domains scenario_env example_cfg (map fst scenario_domains)
      (start_world empty_fs) =
     (Inr [''a.example'', ''b.example''],
      snd (get_certless_domains scenario_env example_cfg (map fst scenario_domains)
            (start_world empty_fs)))"
  by (simp add: has_valid_dns_record_def has_valid_cert_def get_ssl_context_def
      scenario_env_def scenario_domains_def quiet_env_def example_cfg_def start_world_def Let_def)

theorem request_new_certs_groups_witness:
  "request_new_certs scenario_env example_cfg scenario_domains (start_world empty_fs) =
     (None,
      \<lparr>fs = empty_fs,
       ctx_memo = Some (SSLContext [''/etc/ssl/certs/ca-certificates.crt'']),
       trace =
         [Resolve ''a.example'', Connect ''a.example'',
          Resolve ''b.example'', Connect ''b.example'',
          Resolve ''c.example'', Connect ''c.example'',
          Run [''letsencrypt'', ''certonly'', ''--email'', ''ops@example.org'',
               ''--authenticator'', ''standalone'',
               ''--standalone-supported-challenges'', ''http-01'',
               ''--http-01-port'', ''8080'', ''--non-interactive'', ''--agree-tos'',
               ''--keep'', ''--expand'', ''-d'', ''a.example'', ''-d'', ''b.example'']]\<rparr>)"
  using request_new_certs_groups [OF get_certless_domains_scenario]
  by (simp add: request_new_certs_def has_valid_dns_record_def has_valid_cert_def
      get_ssl_context_def request_cert_def letsencrypt_command_def od_get_def
      scenario_env_def scenario_domains_def quiet_env_def example_cfg_def start_world_def Let_def)

subsection \<open>Loading the routing table\<close>

lemma split_ws1_no_space:
  assumes "s \<noteq> []" and "\<forall>c\<in>set s. \<not> is_space c"
  shows "split_ws1 s = [s]"
proof -
  have a: "dropWhile is_space s = s"
    using assms by (cases s) simp_all
  have b: "takeWhile (\<lambda>c. \<not> is_space c) s = s"
    using assms(2) by (simp add: takeWhile_eq_all_conv)
  have c: "dropWhile (\<lambda>c. \<not> is_space c) s = []"
    using assms(2) by (simp add: dropWhile_eq_Nil_conv)
  show ?thesis
    unfolding split_ws1_def Let_def a b c using assms(1) by simp
qed

lemma parse_lines_malformed:
  assumes "l \<in> set lines" and "malformed l"
  shows "parse_lines acc lines = Inl unpack_error"
  using assms(1)
proof (induction lines arbitrary: acc)
  case Nil
  then show ?case by simp
next
  case (Cons x rest)
  show ?case
  proof (cases "x = l")
    case True
    have "split_ws1 (strip l) = [strip l]"
      using assms(2) by (intro split_ws1_no_space) (auto simp: malformed_def skipped_def)
    with True assms(2) show ?thesis
      by (simp add: malformed_def skipped_def Let_def)
  next
    case False
    with Cons.prems have "l \<in> set rest" by simp
    note IH = Cons.IH [OF this]
    show ?thesis
    proof (cases "strip x \<noteq> [] \<and> \<not> startswith (strip x) ''#''")
      case False
      then show ?thesis using IH by (auto simp: Let_def)
    next
      case True
      then show ?thesis
        using IH by (auto simp: Let_def split: list.splits)
    qed
  qed
qed

text \<open>
  C5, as the code has it. When the routing table cannot be read, the exception of the
  read ends \<open>main\<close>; when a line that is neither blank nor a comment has no
  whitespace inside, \<open>main\<close> ends with the \<^verbatim>\<open>ValueError\<close> of the failed unpacking.
  In both cases the state is the one \<open>main\<close> started in: nothing was sent to the
  network or to the issuance client and the file system is unchanged.
\<close>

theorem load_failure_is_fatal:
  "(read_file (fs w) (haproxy_backend_map cfg) = Inl e \<longrightarrow> main ev cfg w = (Some e, w))
   \<and> (read_file (fs w) (haproxy_backend_map cfg) = Inr text \<and> l \<in> set (text_lines text)
        \<and> malformed l \<longrightarrow>
      main ev cfg w = (Some (ValueError ''not enough values to unpack (expected 2, got 1)''), w))"
  using parse_lines_malformed [of l "text_lines text" "[]"]
  by (auto simp: main_def get_all_domains_def unpack_error_def)

lemma malformed_example: "malformed ''gone.example''"
  by (simp add: malformed_def skipped_def strip_def startswith_def is_space_def)

theorem load_failure_is_fatal_witness:
  "main quiet_env example_cfg (start_world empty_fs)
     = (Some FileNotFoundError, start_world empty_fs)
   \<and> main quiet_env example_cfg
       (start_world (routing_fs ''a.example b1\<newline>gone.example\<newline>''))
     = (Some (ValueError ''not enough values to unpack (expected 2, got 1)''),
        start_world (routing_fs ''a.example b1\<newline>gone.example\<newline>''))"
  using load_failure_is_fatal [of "start_world empty_fs" example_cfg FileNotFoundError quiet_env]
    load_failure_is_fatal [of "start_world (routing_fs ''a.example b1\<newline>gone.example\<newline>'')"
      example_cfg _ quiet_env "''a.example b1\<newline>gone.example\<newline>''" "''gone.example\<newline>''"]
  by (simp add: read_file_def start_world_def empty_fs_def routing_fs_def example_cfg_def
      malformed_def skipped_def strip_def startswith_def is_space_def)

text \<open>
  C5, as the specification has it, fails in that the exception does not identify the
  line: two tables whose malformed lines differ, in text and in position, fail with the
  same exception value.
\<close>

theorem load_failure_anonymous:
  "get_all_domains example_cfg (start_world (routing_fs ''gone.example\<newline>''))
     = Inl (ValueError ''not enough values to unpack (expected 2, got 1)'')
   \<and> get_all_domains example_cfg (start_world (routing_fs ''a.example b1\<newline>lost.example\<newline>''))
     = Inl (ValueError ''not enough values to unpack (expected 2, got 1)'')"
  by (simp add: get_all_domains_def read_file_def start_world_def routing_fs_def example_cfg_def
      unpack_error_def strip_def startswith_def split_ws1_def is_space_def Let_def)


lemma od_set_map_of: "map_of (od_set a k v) = (map_of a)(k \<mapsto> v)"
  by (induction a k v rule: od_set.induct) auto

lemma od_set_keys: "fst ` set (od_set a k v) = insert k (fst ` set a)"
  by (induction a k v rule: od_set.induct) auto

lemma od_set_distinct: "distinct (map fst a) \<Longrightarrow> distinct (map fst (od_set a k v))"
proof (induction a k v rule: od_set.induct)
  case (1 k v)
  show ?case by simp
next
  case (2 k' v' kvs k v)
  then show ?case using od_set_keys [of kvs k v] by auto
qed

lemma last_dropWhile:
  "dropWhile P xs \<noteq> [] \<Longrightarrow> last (dropWhile P xs) = last xs"
  by (induction xs) (auto split: if_splits)

lemma strip_ends:
  assumes "strip l \<noteq> []"
  shows "\<not> is_space (hd (strip l))" and "\<not> is_space (last (strip l))"
proof -
  let ?t = "dropWhile is_space l"
  let ?u = "dropWhile is_space (rev ?t)"
  have u: "?u \<noteq> []" using assms by (simp add: strip_def)
  then have t: "?t \<noteq> []" by (auto dest: set_dropWhileD)
  have "last ?u = last (rev ?t)" using u by (rule last_dropWhile)
  also have "\<dots> = hd ?t" using t by (simp add: last_rev)
  finally have "hd (strip l) = hd ?t"
    using u by (simp add: strip_def hd_rev)
  moreover have "\<not> is_space (hd ?t)" using t by (rule hd_dropWhile)
  ultimately show "\<not> is_space (hd (strip l))" by simp
  have "last (strip l) = hd ?u" using u by (simp add: strip_def last_rev)
  moreover have "\<not> is_space (hd ?u)" using u by (rule hd_dropWhile)
  ultimately show "\<not> is_space (last (strip l))" by simp
qed

lemma split_ws1_two:
  assumes "s \<noteq> []" and "\<not> is_space (hd s)" and "\<not> is_space (last s)"
    and "\<exists>c\<in>set s. is_space c"
  shows "split_ws1 s =
     [takeWhile (\<lambda>c. \<not> is_space c) s,
      dropWhile is_space (dropWhile (\<lambda>c. \<not> is_space c) s)]"
proof -
  let ?r = "dropWhile (\<lambda>c. \<not> is_space c) s"
  have a: "dropWhile is_space s = s"
    using assms(1,2) by (cases s) simp_all
  have r: "?r \<noteq> []"
    using assms(4) by (simp add: dropWhile_eq_Nil_conv)
  then have "last ?r = last s" by (rule last_dropWhile)
  then have "\<not> is_space (last ?r)"
    using assms(3) by simp
  moreover have "last ?r \<in> set ?r"
    using r by (rule last_in_set)
  ultimately have "\<not> (\<forall>c\<in>set ?r. is_space c)"
    by (rule_tac notI) (drule (1) bspec, erule (1) notE)
  then have b: "dropWhile is_space ?r \<noteq> []"
    by (simp only: dropWhile_eq_Nil_conv not_False_eq_True)
  show ?thesis
    unfolding split_ws1_def Let_def a by (simp only: assms(1) b if_False)
qed

lemma line_entry_cases:
  assumes "\<not> skipped l"
  shows "(malformed l \<and> line_entry l = None) \<or> (\<not> malformed l \<and> line_entry l \<noteq> None)"
proof -
  let ?s = "strip l"
  have ne: "?s \<noteq> []" using assms by (simp add: skipped_def)
  show ?thesis
  proof (cases "\<forall>c\<in>set ?s. \<not> is_space c")
    case True
    from split_ws1_no_space [OF ne True] show ?thesis
      using assms True by (simp add: malformed_def line_entry_def)
  next
    case False
    then have "\<exists>c\<in>set ?s. is_space c" by simp
    from split_ws1_two [OF ne strip_ends [OF ne] this] show ?thesis
      using False by (simp add: malformed_def line_entry_def)
  qed
qed

lemma parse_lines_step:
  "parse_lines acc (l # rest) =
     (if skipped l then parse_lines acc rest
      else (case line_entry l of
              None \<Rightarrow> Inl unpack_error
            | Some (d, b) \<Rightarrow> parse_lines (od_set acc d b) rest))"
proof (cases "skipped l")
  case True
  then show ?thesis by (auto simp: skipped_def Let_def)
next
  case False
  then have ne: "strip l \<noteq> []" and nc: "\<not> startswith (strip l) ''#''"
    by (simp_all add: skipped_def)
  show ?thesis
  proof (cases "\<forall>c\<in>set (strip l). \<not> is_space c")
    case True
    from split_ws1_no_space [OF ne True] show ?thesis
      using False ne nc by (simp add: line_entry_def Let_def)
  next
    case nospace: False
    then have "\<exists>c\<in>set (strip l). is_space c" by simp
    from split_ws1_two [OF ne strip_ends [OF ne] this] show ?thesis
      using False ne nc by (simp add: line_entry_def Let_def)
  qed
qed

lemma parse_lines_entries:
  assumes "\<forall>l\<in>set lines. \<not> malformed l"
  shows "parse_lines acc lines = Inr (foldl (\<lambda>a (d, b). od_set a d b) acc (entries lines))"
  using assms
proof (induction lines arbitrary: acc)
  case Nil
  show ?case by (simp add: entries_def List.map_filter_simps)
next
  case (Cons l rest)
  then have IH: "parse_lines acc' rest
      = Inr (foldl (\<lambda>a (d, b). od_set a d b) acc' (entries rest))" for acc'
    by simp
  show ?case
  proof (cases "skipped l")
    case True
    then show ?thesis
      using IH by (simp add: parse_lines_step entries_def del: parse_lines.simps)
  next
    case False
    with Cons.prems line_entry_cases [OF False] obtain d b where "line_entry l = Some (d, b)"
      by auto
    then show ?thesis
      using False IH
      by (simp add: parse_lines_step entries_def List.map_filter_simps del: parse_lines.simps)
  qed
qed

lemma foldl_od_set_map_of:
  "map_of (foldl (\<lambda>a (d, b). od_set a d b) acc es) = map_of acc ++ map_of (rev es)"
proof (induction es arbitrary: acc)
  case Nil
  show ?case by simp
next
  case (Cons e es)
  obtain d b where e: "e = (d, b)" by (cases e)
  have "map_of (od_set acc d b) ++ map_of (rev es) = map_of acc ++ map_of (rev es @ [(d, b)])"
    by (simp add: od_set_map_of map_add_def fun_eq_iff split: option.splits)
  with Cons.IH [of "od_set acc d b"] e show ?case by simp
qed

lemma foldl_od_set_distinct:
  "distinct (map fst acc) \<Longrightarrow> distinct (map fst (foldl (\<lambda>a (d, b). od_set a d b) acc es))"
  by (induction es arbitrary: acc) (auto simp: od_set_distinct)

lemma entries_keys:
  "fst ` set (entries lines) = {d. \<exists>l\<in>set lines. \<not> skipped l \<and> (\<exists>b. line_entry l = Some (d, b))}"
proof -
  have "fst ` set (entries lines)
      = (\<lambda>l. fst (the (line_entry l))) ` {l \<in> set lines. \<not> skipped l \<and> line_entry l \<noteq> None}"
    by (auto simp: entries_def map_filter_def image_image)
  also have "\<dots> = {d. \<exists>l\<in>set lines. \<not> skipped l \<and> (\<exists>b. line_entry l = Some (d, b))}"
    by force
  finally show ?thesis .
qed

lemma entries_append: "entries (xs @ ys) = entries xs @ entries ys"
  by (simp add: entries_def map_filter_def)

lemma entries_single: "\<not> skipped l \<Longrightarrow> line_entry l = Some e \<Longrightarrow> entries (l # ys) = e # entries ys"
  by (simp add: entries_def map_filter_def)


lemma strip_shape:
  assumes "mid \<noteq> []" and "\<not> is_space (hd mid)" and "\<not> is_space (last mid)"
    and "\<forall>c\<in>set ws0. is_space c" and "\<forall>c\<in>set ws1. is_space c"
  shows "strip (ws0 @ mid @ ws1) = mid"
proof -
  have "dropWhile is_space (ws0 @ mid @ ws1) = dropWhile is_space (mid @ ws1)"
    using assms(4) by (simp add: dropWhile_append2)
  also have "\<dots> = mid @ ws1"
    using assms(1,2) by (cases mid) simp_all
  finally have a: "dropWhile is_space (ws0 @ mid @ ws1) = mid @ ws1" .
  have "dropWhile is_space (rev ws1 @ rev mid) = dropWhile is_space (rev mid)"
    using assms(5) by (intro dropWhile_append2) simp
  then have "dropWhile is_space (rev (mid @ ws1)) = dropWhile is_space (rev mid)"
    by simp
  also have "\<dots> = rev mid"
    using assms(1,3) by (cases mid rule: rev_cases) simp_all
  finally show ?thesis
    by (simp only: strip_def a rev_rev_ident)
qed

lemma strip_hash: "\<exists>t. strip (CHR ''#'' # l) = CHR ''#'' # t"
proof -
  have h: "\<not> is_space CHR ''#''" by (simp add: is_space_def)
  have "dropWhile is_space (rev l @ [CHR ''#'']) = dropWhile is_space (rev l) @ [CHR ''#'']"
    using h by (simp add: dropWhile_append3)
  then show ?thesis
    using h by (simp add: strip_def)
qed

lemma skipped_blank:
  assumes "\<forall>c\<in>set l. is_space c"
  shows "skipped l"
proof -
  have "dropWhile is_space l = []"
    using assms by (simp add: dropWhile_eq_Nil_conv)
  then show ?thesis
    by (simp only: skipped_def strip_def rev.simps dropWhile.simps simp_thms)
qed

lemma skipped_hash: "skipped (CHR ''#'' # l)"
  using strip_hash [of l] by (auto simp: skipped_def startswith_def)

lemma line_entry_shape:
  assumes "dm \<noteq> []" and "\<forall>c\<in>set dm. \<not> is_space c" and "hd dm \<noteq> CHR ''#''"
    and "sep \<noteq> []" and "\<forall>c\<in>set sep. is_space c"
    and "be \<noteq> []" and "\<not> is_space (hd be)" and "\<not> is_space (last be)"
    and "\<forall>c\<in>set ws0. is_space c" and "\<forall>c\<in>set ws1. is_space c"
  shows "\<not> skipped (ws0 @ dm @ sep @ be @ ws1)"
    and "line_entry (ws0 @ dm @ sep @ be @ ws1) = Some (dm, be)"
proof -
  let ?s = "dm @ sep @ be"
  have ne: "?s \<noteq> []" using assms(1) by simp
  have hd: "hd ?s = hd dm" using assms(1) by simp
  then have h: "\<not> is_space (hd ?s)" using assms(1,2) by simp
  have l: "\<not> is_space (last ?s)" using assms(6,8) by simp
  have st: "strip (ws0 @ dm @ sep @ be @ ws1) = ?s"
    using strip_shape [OF ne h l assms(9,10)] by simp
  have "take (Suc 0) ?s = [hd dm]"
    using assms(1) by (cases dm) simp_all
  then show "\<not> skipped (ws0 @ dm @ sep @ be @ ws1)"
    using ne assms(3) by (simp add: skipped_def st startswith_def)
  have sp: "\<exists>c\<in>set ?s. is_space c"
    using assms(4,5) by (cases sep) auto
  have tw: "takeWhile (\<lambda>c. \<not> is_space c) ?s = dm"
    using assms(2,4,5) by (cases sep) (simp_all add: takeWhile_append2)
  have "dropWhile (\<lambda>c. \<not> is_space c) ?s = sep @ be"
    using assms(2,4,5) by (cases sep) (simp_all add: dropWhile_append2)
  moreover have "dropWhile is_space (sep @ be) = be"
    using assms(5,6,7) by (cases be) (simp_all add: dropWhile_append2)
  ultimately have dw: "dropWhile is_space (dropWhile (\<lambda>c. \<not> is_space c) ?s) = be"
    by simp
  show "line_entry (ws0 @ dm @ sep @ be @ ws1) = Some (dm, be)"
    unfolding line_entry_def st split_ws1_two [OF ne h l sp] tw dw by simp
qed

lemma last_occurrence_wins:
  assumes "lines = pre @ l # post" and "\<not> skipped l" and "line_entry l = Some (d, b)"
    and "\<forall>l'\<in>set post. skipped l' \<or> (\<forall>b'. line_entry l' \<noteq> Some (d, b'))"
  shows "map_of (rev (entries lines)) d = Some b"
proof -
  have "entries lines = entries pre @ (d, b) # entries post"
    using assms(1-3) by (simp add: entries_append entries_single)
  then have "rev (entries lines) = rev (entries post) @ (d, b) # rev (entries pre)"
    by simp
  moreover have "d \<notin> fst ` set (entries post)"
    using assms(4) by (auto simp: entries_keys)
  then have "map_of (rev (entries post)) d = None"
    by (simp add: map_of_eq_None_iff)
  ultimately show ?thesis
    by (simp add: map_add_def)
qed

text \<open>
  C7. When the routing table can be read and none of its lines is malformed,
  \<open>get_all_domains\<close> returns a mapping with distinct keys; its keys are the domains of
  the lines that are not passed over; and a domain maps to the backend of the last line
  that gives it. Blank lines and lines that begin with \<open>#\<close> are passed over. A line made
  of a domain without whitespace, a run of whitespace and a backend, with whitespace
  allowed around them, gives that domain and that backend: the line is split at the
  first run of whitespace.
\<close>

theorem get_all_domains_mapping:
  assumes "read_file (fs w) (haproxy_backend_map cfg) = Inr text"
    and "\<forall>l\<in>set (text_lines text). \<not> malformed l"
  shows "(\<exists>res. get_all_domains cfg w = Inr res
      \<and> distinct (map fst res)
      \<and> (\<forall>d. d \<in> fst ` set res \<longleftrightarrow>
               (\<exists>l\<in>set (text_lines text). \<not> skipped l \<and> (\<exists>b. line_entry l = Some (d, b))))
      \<and> (\<forall>pre l post d b.
            text_lines text = pre @ l # post \<and> \<not> skipped l \<and> line_entry l = Some (d, b)
            \<and> (\<forall>l'\<in>set post. skipped l' \<or> (\<forall>b'. line_entry l' \<noteq> Some (d, b')))
            \<longrightarrow> map_of res d = Some b))
    \<and> ((\<forall>c\<in>set blank. is_space c) \<longrightarrow> skipped blank)
    \<and> skipped (CHR ''#'' # comment)
    \<and> (dm \<noteq> [] \<and> (\<forall>c\<in>set dm. \<not> is_space c) \<and> hd dm \<noteq> CHR ''#''
         \<and> sep \<noteq> [] \<and> (\<forall>c\<in>set sep. is_space c)
         \<and> be \<noteq> [] \<and> \<not> is_space (hd be) \<and> \<not> is_space (last be)
         \<and> (\<forall>c\<in>set ws0. is_space c) \<and> (\<forall>c\<in>set ws1. is_space c)
         \<longrightarrow> \<not> skipped (ws0 @ dm @ sep @ be @ ws1)
             \<and> line_entry (ws0 @ dm @ sep @ be @ ws1) = Some (dm, be))"
proof -
  let ?lines = "text_lines text"
  let ?res = "foldl (\<lambda>a (d, b). od_set a d b) [] (entries ?lines)"
  have res: "get_all_domains cfg w = Inr ?res"
    using assms(1) parse_lines_entries [OF assms(2), of "[]"] by (simp add: get_all_domains_def)
  have dist: "distinct (map fst ?res)"
    by (rule foldl_od_set_distinct) simp
  have look: "map_of ?res = map_of (rev (entries ?lines))"
    by (simp add: foldl_od_set_map_of)
  have "fst ` set ?res = dom (map_of ?res)"
    by (simp add: dom_map_of_conv_image_fst)
  also have "\<dots> = fst ` set (entries ?lines)"
    unfolding look by (simp add: dom_map_of_conv_image_fst image_image)
  finally have keys: "fst ` set ?res =
      {d. \<exists>l\<in>set ?lines. \<not> skipped l \<and> (\<exists>b. line_entry l = Some (d, b))}"
    by (simp only: entries_keys)
  have last: "map_of ?res d = Some b"
    if "?lines = pre @ l # post" "\<not> skipped l" "line_entry l = Some (d, b)"
      "\<forall>l'\<in>set post. skipped l' \<or> (\<forall>b'. line_entry l' \<noteq> Some (d, b'))"
    for pre l post d b
    unfolding look using that by (rule last_occurrence_wins)
  have loaded: "\<exists>res. get_all_domains cfg w = Inr res
      \<and> distinct (map fst res)
      \<and> (\<forall>d. d \<in> fst ` set res \<longleftrightarrow>
               (\<exists>l\<in>set (text_lines text). \<not> skipped l \<and> (\<exists>b. line_entry l = Some (d, b))))
      \<and> (\<forall>pre l post d b.
            text_lines text = pre @ l # post \<and> \<not> skipped l \<and> line_entry l = Some (d, b)
            \<and> (\<forall>l'\<in>set post. skipped l' \<or> (\<forall>b'. line_entry l' \<noteq> Some (d, b')))
            \<longrightarrow> map_of res d = Some b)"
  proof (intro exI [of _ ?res] conjI allI impI)
    show "get_all_domains cfg w = Inr ?res" by (rule res)
    show "distinct (map fst ?res)" by (rule dist)
    show "d \<in> fst ` set ?res \<longleftrightarrow>
        (\<exists>l\<in>set ?lines. \<not> skipped l \<and> (\<exists>b. line_entry l = Some (d, b)))" for d
      unfolding keys by simp
    show "map_of ?res d = Some b"
      if "?lines = pre @ l # post \<and> \<not> skipped l \<and> line_entry l = Some (d, b)
            \<and> (\<forall>l'\<in>set post. skipped l' \<or> (\<forall>b'. line_entry l' \<noteq> Some (d, b')))"
      for pre l post d b
      using that last by blast
  qed
  have blank: "(\<forall>c\<in>set blank. is_space c) \<longrightarrow> skipped blank"
    using skipped_blank by blast
  have comment: "skipped (CHR ''#'' # comment)"
    by (rule skipped_hash)
  have shape: "dm \<noteq> [] \<and> (\<forall>c\<in>set dm. \<not> is_space c) \<and> hd dm \<noteq> CHR ''#''
         \<and> sep \<noteq> [] \<and> (\<forall>c\<in>set sep. is_space c)
         \<and> be \<noteq> [] \<and> \<not> is_space (hd be) \<and> \<not> is_space (last be)
         \<and> (\<forall>c\<in>set ws0. is_space c) \<and> (\<forall>c\<in>set ws1. is_space c)
         \<longrightarrow> \<not> skipped (ws0 @ dm @ sep @ be @ ws1)
             \<and> line_entry (ws0 @ dm @ sep @ be @ ws1) = Some (dm, be)"
    using line_entry_shape [of dm sep be ws0 ws1] by blast
  from loaded blank comment shape show ?thesis
    by (intro conjI)
qed

lemma routing_example_lines:
  "text_lines ''# routing\<newline>\<newline>a.example b1\<newline>b.example   b2 x\<newline>a.example b3\<newline>''
     = [''# routing\<newline>'', ''\<newline>'', ''a.example b1\<newline>'', ''b.example   b2 x\<newline>'', ''a.example b3\<newline>'']"
  by simp

lemma routing_example_well_formed:
  "\<forall>l\<in>set (text_lines ''# routing\<newline>\<newline>a.example b1\<newline>b.example   b2 x\<newline>a.example b3\<newline>'').
     \<not> malformed l"
  unfolding routing_example_lines
  by (simp add: malformed_def skipped_def strip_def startswith_def is_space_def)

lemma routing_example_read:
  "read_file (fs (start_world (routing_fs
        ''# routing\<newline>\<newline>a.example b1\<newline>b.example   b2 x\<newline>a.example b3\<newline>'')))
      (haproxy_backend_map example_cfg)
     = Inr ''# routing\<newline>\<newline>a.example b1\<newline>b.example   b2 x\<newline>a.example b3\<newline>''"
  by (simp add: read_file_def start_world_def routing_fs_def)

theorem get_all_domains_mapping_witness:
  "get_all_domains example_cfg
     (start_world (routing_fs
        ''# routing\<newline>\<newline>a.example b1\<newline>b.example   b2 x\<newline>a.example b3\<newline>''))
     = Inr [(''a.example'', ''b3''), (''b.example'', ''b2 x'')]"
  using get_all_domains_mapping [OF routing_example_read routing_example_well_formed]
  unfolding get_all_domains_def routing_example_read routing_example_lines
  by (simp add: strip_def startswith_def split_ws1_def is_space_def unpack_error_def Let_def)

subsection \<open>Paths\<close>

lemma py_suffix_conf: "s \<noteq> [] \<Longrightarrow> py_suffix (s @ ''.conf'') = ''.conf''"
  by (simp add: py_suffix_def)

lemma stem_nonempty: "name p \<noteq> [] \<Longrightarrow> stem p \<noteq> []"
  by (auto simp: stem_def py_suffix_def Let_def)

lemma disabled_config_name:
  "name cert_path \<noteq> [] \<Longrightarrow>
     disabled_config cert_path = Path ''/etc/letsencrypt/renewal'' (stem cert_path @ ''.disabled'')"
  using py_suffix_conf [OF stem_nonempty, of cert_path]
  by (simp add: disabled_config_def with_suffix_def renewal_config_def)

lemma disabled_config_last: "last (name (disabled_config q)) = CHR ''d''"
  by (simp add: disabled_config_def with_suffix_def Let_def)

lemma renewal_config_last: "last (name (renewal_config q)) = CHR ''f''"
  by (simp add: renewal_config_def)

lemma matches_pem_last: "matches_pem n \<Longrightarrow> last n = CHR ''m''"
proof -
  assume "matches_pem n"
  then have "4 \<le> length n" and "drop (length n - 4) n = ''.pem''"
    by (simp_all add: matches_pem_def)
  then have "n = take (length n - 4) n @ ''.pem''"
    by (metis append_take_drop_id)
  then have "last n = last (take (length n - 4) n @ ''.pem'')" by simp
  then show ?thesis by simp
qed

lemma pem_not_config:
  assumes "matches_pem (name p)"
  shows "p \<noteq> renewal_config q" and "p \<noteq> disabled_config q"
  using matches_pem_last [OF assms] renewal_config_last [of q] disabled_config_last [of q]
  by auto

lemma renewal_not_disabled: "renewal_config p \<noteq> disabled_config q"
  using renewal_config_last [of p] disabled_config_last [of q] by auto


subsection \<open>Removing a certificate\<close>

lemma remove_cert_unfold:
  assumes "nodes f p = Some (File c)" and "p \<notin> locked f"
  shows "remove_cert f p =
     (let f1 = f\<lparr>nodes := (nodes f)(p := None)\<rparr>
      in if is_file f (renewal_config p) \<and> renewal_config p \<noteq> p
         then (if renewal_config p \<in> locked f \<or> disabled_config p \<in> locked f
               then (Some PermissionError, f1)
               else if nodes f (disabled_config p) = Some Dir \<and> disabled_config p \<noteq> p
               then (Some IsADirectoryError, f1)
               else (None, f\<lparr>nodes := (nodes f)(p := None, disabled_config p := nodes f (renewal_config p),
                                   renewal_config p := None)\<rparr>))
         else (None, f1))"
proof -
  have u: "unlink f p = Inr (f\<lparr>nodes := (nodes f)(p := None)\<rparr>)"
    using assms by (simp add: unlink_def)
  show ?thesis
  proof (cases "is_file f (renewal_config p) \<and> renewal_config p \<noteq> p")
    case False
    then have "\<not> is_file (f\<lparr>nodes := (nodes f)(p := None)\<rparr>) (renewal_config p)"
      by (auto simp: is_file_def)
    with False show ?thesis
      by (auto simp: remove_cert_def u Let_def)
  next
    case True
    then obtain c' where c': "nodes f (renewal_config p) = Some (File c')"
      by (auto simp: is_file_def split: option.splits node.splits)
    from True have "is_file (f\<lparr>nodes := (nodes f)(p := None)\<rparr>) (renewal_config p)"
      by (simp add: is_file_def)
    with True c' show ?thesis
      using renewal_not_disabled [of p p]
      by (simp add: remove_cert_def u Let_def rename_def disabled_config_def [symmetric])
  qed
qed

text \<open>
  C10. For a certificate file that is there and may be removed, \<open>remove_cert\<close> unlinks
  it whatever else happens. Its renewal configuration is the file with the stem of the
  certificate and the extension \<open>.conf\<close> in \<open>/etc/letsencrypt/renewal\<close>. When that is
  not a regular file, the file system after \<open>remove_cert\<close> differs from the one before
  only in that the certificate file is gone. When it is a regular file and the renaming
  is permitted, the file system differs only in that the certificate file is gone and the
  configuration is now at the same name with the extension \<open>.disabled\<close>.
\<close>

theorem remove_cert_effect:
  assumes "nodes f cert_path = Some (File c)" and "cert_path \<notin> locked f"
    and "name cert_path \<noteq> []"
  shows "renewal_config cert_path = Path ''/etc/letsencrypt/renewal'' (stem cert_path @ ''.conf'')
    \<and> with_suffix (renewal_config cert_path) ''.disabled''
        = Path ''/etc/letsencrypt/renewal'' (stem cert_path @ ''.disabled'')
    \<and> (\<exists>r f'. remove_cert f cert_path = (r, f')
          \<and> (cert_path \<noteq> Path ''/etc/letsencrypt/renewal'' (stem cert_path @ ''.disabled'')
               \<longrightarrow> nodes f' cert_path = None))
    \<and> (\<not> is_file f (Path ''/etc/letsencrypt/renewal'' (stem cert_path @ ''.conf''))
        \<longrightarrow> remove_cert f cert_path = (None, f\<lparr>nodes := (nodes f)(cert_path := None)\<rparr>))
    \<and> (is_file f (Path ''/etc/letsencrypt/renewal'' (stem cert_path @ ''.conf''))
        \<and> cert_path \<noteq> Path ''/etc/letsencrypt/renewal'' (stem cert_path @ ''.conf'')
        \<and> Path ''/etc/letsencrypt/renewal'' (stem cert_path @ ''.conf'') \<notin> locked f
        \<and> Path ''/etc/letsencrypt/renewal'' (stem cert_path @ ''.disabled'') \<notin> locked f
        \<and> nodes f (Path ''/etc/letsencrypt/renewal'' (stem cert_path @ ''.disabled'')) \<noteq> Some Dir
        \<longrightarrow> remove_cert f cert_path =
              (None, f\<lparr>nodes := (nodes f)
                 (cert_path := None,
                  Path ''/etc/letsencrypt/renewal'' (stem cert_path @ ''.disabled'') :=
                    nodes f (Path ''/etc/letsencrypt/renewal'' (stem cert_path @ ''.conf'')),
                  Path ''/etc/letsencrypt/renewal'' (stem cert_path @ ''.conf'') := None)\<rparr>))"
proof -
  let ?rc = "Path ''/etc/letsencrypt/renewal'' (stem cert_path @ ''.conf'')"
  let ?dis = "Path ''/etc/letsencrypt/renewal'' (stem cert_path @ ''.disabled'')"
  have rc: "renewal_config cert_path = ?rc"
    by (simp add: renewal_config_def)
  have dis: "disabled_config cert_path = ?dis"
    using assms(3) by (rule disabled_config_name)
  note unf = remove_cert_unfold [OF assms(1,2), unfolded rc dis Let_def]
  have a: "\<exists>r f'. remove_cert f cert_path = (r, f') \<and> (cert_path \<noteq> ?dis \<longrightarrow> nodes f' cert_path = None)"
    unfolding unf by auto
  have b: "\<not> is_file f ?rc \<longrightarrow> remove_cert f cert_path = (None, f\<lparr>nodes := (nodes f)(cert_path := None)\<rparr>)"
    unfolding unf by simp
  have c: "is_file f ?rc \<and> cert_path \<noteq> ?rc \<and> ?rc \<notin> locked f \<and> ?dis \<notin> locked f
        \<and> nodes f ?dis \<noteq> Some Dir
        \<longrightarrow> remove_cert f cert_path =
              (None, f\<lparr>nodes := (nodes f)(cert_path := None, ?dis := nodes f ?rc, ?rc := None)\<rparr>)"
    unfolding unf by auto
  from rc dis [unfolded disabled_config_def] a b c show ?thesis
    by (intro conjI)
qed


lemmas cleanup_eval =
  clean_up_certs_def glob_pem_def matches_pem_def read_file_def get_dns_names_def
  split_colon1_def remove_cert_def unlink_def is_file_def rename_def renewal_config_def
  stem_def py_suffix_def with_suffix_def certs_env_def quiet_env_def certs_fs_def
  old_pem_def bad_pem_def old_cert_def example_cfg_def start_world_def Let_def
  noname_cert_def dirname_cert_def older_pem_def locked_fs_def noname_pem_def noname_fs_def
  no_names_error_def unpack_error_def ip_cert_def dirname_pem_def ip_pem_def san_fs_def

lemma old_cert_names: "get_dns_names old_cert = Inr [''old.example'']"
  by (simp add: cleanup_eval)

theorem remove_cert_effect_witness:
  "fst (remove_cert certs_fs old_pem) = None
   \<and> nodes (snd (remove_cert certs_fs old_pem)) old_pem = None
   \<and> nodes (snd (remove_cert certs_fs old_pem)) (Path ''/etc/letsencrypt/renewal'' ''old.conf'') = None
   \<and> nodes (snd (remove_cert certs_fs old_pem)) (Path ''/etc/letsencrypt/renewal'' ''old.disabled'')
       = Some (File ''renew old'')
   \<and> nodes (snd (remove_cert certs_fs old_pem)) bad_pem = Some (File ''junk'')"
  using remove_cert_effect [of certs_fs old_pem "''old''"]
  by (simp add: cleanup_eval)

subsection \<open>The cleanup pass\<close>

lemma clean_up_loop_step:
  "clean_up_loop ev A (p # rest) f =
     (case decide ev A f p of
        Inl e \<Rightarrow> (Some e, f)
      | Inr remove \<Rightarrow>
          if remove
          then (case remove_cert f p of
                  (Some e, f1) \<Rightarrow> (Some e, f1)
                | (None, f1) \<Rightarrow> clean_up_loop ev A rest f1)
          else clean_up_loop ev A rest f)"
  by (auto simp: decide_def Let_def split: sum.splits)

lemma decide_cong:
  assumes "nodes f' p = nodes f p" and "p \<in> unreadable f' \<longleftrightarrow> p \<in> unreadable f"
  shows "decide ev A f' p = decide ev A f p"
proof -
  have "read_file f' p = read_file f p"
    unfolding read_file_def using assms by (auto split: option.splits node.splits)
  then show ?thesis by (simp add: decide_def)
qed

lemma remove_cert_frame:
  assumes "remove_cert f q = (r, f')"
  shows "unreadable f' = unreadable f" and "locked f' = locked f"
    and "p \<noteq> q \<Longrightarrow> p \<noteq> renewal_config q \<Longrightarrow> p \<noteq> disabled_config q \<Longrightarrow> nodes f' p = nodes f p"
  using assms
  by (auto simp: remove_cert_def unlink_def rename_def disabled_config_def
      split: option.splits node.splits if_splits sum.splits)

lemma remove_cert_gone:
  assumes "remove_cert f q = (None, f')" and "q \<noteq> disabled_config q"
  shows "nodes f' q = None"
  using assms
  by (auto simp: remove_cert_def unlink_def rename_def disabled_config_def
      split: option.splits node.splits if_splits sum.splits)

lemma remove_cert_pem_frame:
  assumes "remove_cert f q = (r, f')" and "matches_pem (name p)" and "p \<noteq> q"
  shows "nodes f' p = nodes f p" and "p \<in> unreadable f' \<longleftrightarrow> p \<in> unreadable f"
  using remove_cert_frame [OF assms(1)] pem_not_config [OF assms(2), of q] assms(3)
  by simp_all

lemma clean_up_loop_absent:
  assumes "matches_pem (name p)"
  shows "nodes f p = None \<Longrightarrow> clean_up_loop ev A ps f = (r, f') \<Longrightarrow> nodes f' p = None"
proof (induction ps arbitrary: f)
  case Nil
  then show ?case by simp
next
  case (Cons q rest)
  show ?case
  proof (cases "q = p")
    case True
    have "decide ev A f p = Inl FileNotFoundError"
      using Cons.prems(1) by (simp add: decide_def read_file_def)
    with Cons.prems True show ?thesis
      by (simp add: clean_up_loop_step del: clean_up_loop.simps)
  next
    case False
    obtain r1 f1 where rm: "remove_cert f q = (r1, f1)" by (cases "remove_cert f q")
    have f1: "nodes f1 p = None"
      using remove_cert_pem_frame(1) [OF rm assms] False Cons.prems(1) by simp
    show ?thesis
      using Cons.prems Cons.IH [OF Cons.prems(1)] Cons.IH [OF f1] rm f1
      by (auto simp: clean_up_loop_step simp del: clean_up_loop.simps
          split: sum.splits if_splits option.splits)
  qed
qed

lemma clean_up_loop_kept:
  assumes "matches_pem (name p)"
  shows "decide ev A f p = Inr False \<Longrightarrow> clean_up_loop ev A ps f = (r, f')
     \<Longrightarrow> nodes f' p = nodes f p \<and> decide ev A f' p = Inr False"
proof (induction ps arbitrary: f)
  case Nil
  then show ?case by simp
next
  case (Cons q rest)
  show ?case
  proof (cases "q = p")
    case True
    with Cons.prems Cons.IH [OF Cons.prems(1)] show ?thesis
      by (simp add: clean_up_loop_step del: clean_up_loop.simps)
  next
    case False
    obtain r1 f1 where rm: "remove_cert f q = (r1, f1)" by (cases "remove_cert f q")
    note fr = remove_cert_pem_frame [OF rm assms, OF False [symmetric]]
    have d1: "decide ev A f1 p = Inr False"
      using decide_cong [OF fr, of ev A] Cons.prems(1) by simp
    show ?thesis
      using Cons.prems Cons.IH [OF Cons.prems(1)] Cons.IH [OF d1] rm fr(1) d1
      by (auto simp: clean_up_loop_step simp del: clean_up_loop.simps
          split: sum.splits if_splits option.splits)
  qed
qed

lemma clean_up_loop_removed:
  assumes "matches_pem (name p)"
  shows "decide ev A f p = Inr True \<Longrightarrow> p \<in> set ps \<Longrightarrow> clean_up_loop ev A ps f = (None, f')
     \<Longrightarrow> nodes f' p = None"
proof (induction ps arbitrary: f)
  case Nil
  then show ?case by simp
next
  case (Cons q rest)
  show ?case
  proof (cases "q = p")
    case True
    obtain r1 f1 where rm: "remove_cert f p = (r1, f1)" by (cases "remove_cert f p")
    with Cons.prems(1,3) True have r1: "r1 = None" and rest: "clean_up_loop ev A rest f1 = (None, f')"
      by (auto simp: clean_up_loop_step simp del: clean_up_loop.simps split: option.splits)
    have "nodes f1 p = None"
      using remove_cert_gone [OF rm [unfolded r1]] pem_not_config(2) [OF assms, of p] by simp
    from clean_up_loop_absent [OF assms this rest] show ?thesis .
  next
    case False
    with Cons.prems(2) have mem: "p \<in> set rest" by simp
    obtain r1 f1 where rm: "remove_cert f q = (r1, f1)" by (cases "remove_cert f q")
    note fr = remove_cert_pem_frame [OF rm assms, OF False [symmetric]]
    have d1: "decide ev A f1 p = Inr True"
      using decide_cong [OF fr, of ev A] Cons.prems(1) by simp
    show ?thesis
      using Cons.prems(3) Cons.IH [OF Cons.prems(1) mem] Cons.IH [OF d1 mem] rm
      by (auto simp: clean_up_loop_step simp del: clean_up_loop.simps
          split: sum.splits if_splits option.splits)
  qed
qed


lemma glob_pem_matches: "p \<in> set (glob_pem ev f d) \<Longrightarrow> matches_pem (name p)"
  by (auto simp: glob_pem_def)

lemma decide_names:
  assumes "read_file f p = Inr pem" and "load_certificate ev pem = Inr cert"
    and "get_dns_names cert = Inr names"
  shows "decide ev A f p =
     Inr (\<not> (\<exists>nm\<in>set names. CHR ''*'' \<in> set nm) \<and> set names \<inter> A = {})"
  using assms by (simp add: decide_def)

text \<open>
  C1, as the code has it. Take a certificate file that the scan lists and from which
  names are extracted. In a cleanup pass that ends without an exception, the file is
  deleted if and only if none of its names contains \<open>*\<close> and its names are disjoint
  from the active domains. In every pass, ended by an exception or not, a file one of
  whose names contains \<open>*\<close> or is an active domain is left as it was.
\<close>

theorem clean_up_certs_deletes_iff:
  assumes "p \<in> set (glob_pem ev (fs w) (haproxy_certs_dir cfg))"
    and "read_file (fs w) p = Inr pem" and "load_certificate ev pem = Inr cert"
    and "get_dns_names cert = Inr names"
  shows "(clean_up_certs ev cfg all_domains w = (None, w') \<longrightarrow>
            (nodes (fs w') p = None \<longleftrightarrow>
               \<not> (\<exists>nm\<in>set names. CHR ''*'' \<in> set nm)
               \<and> set names \<inter> set (map fst all_domains) = {}))
       \<and> ((\<exists>nm\<in>set names. CHR ''*'' \<in> set nm)
            \<or> set names \<inter> set (map fst all_domains) \<noteq> {} \<longrightarrow>
          nodes (fs (snd (clean_up_certs ev cfg all_domains w))) p = nodes (fs w) p)"
proof -
  let ?A = "set (map fst all_domains)"
  let ?ps = "glob_pem ev (fs w) (haproxy_certs_dir cfg)"
  let ?elig = "\<not> (\<exists>nm\<in>set names. CHR ''*'' \<in> set nm) \<and> set names \<inter> ?A = {}"
  obtain r f where loop: "clean_up_loop ev ?A ?ps (fs w) = (r, f)"
    by (cases "clean_up_loop ev ?A ?ps (fs w)")
  then have run: "clean_up_certs ev cfg all_domains w = (r, w\<lparr>fs := f\<rparr>)"
    by (simp add: clean_up_certs_def)
  have pem: "matches_pem (name p)"
    using assms(1) by (rule glob_pem_matches)
  have dec: "decide ev ?A (fs w) p = Inr ?elig"
    using assms(2-4) by (rule decide_names)
  have there: "nodes (fs w) p \<noteq> None"
    using assms(2) by (auto simp: read_file_def split: option.splits)
  have kept: "nodes f p = nodes (fs w) p" if "\<not> ?elig"
    using clean_up_loop_kept [OF pem _ loop] dec that by simp
  have gone: "nodes f p = None" if "?elig" and "r = None"
    using clean_up_loop_removed [OF pem _ assms(1)] loop dec that by simp
  have "nodes (fs w') p = None \<longleftrightarrow> ?elig" if "clean_up_certs ev cfg all_domains w = (None, w')"
  proof -
    from that run have "r = None" and "fs w' = f" by auto
    show ?thesis
    proof (cases ?elig)
      case True
      with gone [OF True \<open>r = None\<close>] \<open>fs w' = f\<close> show ?thesis by simp
    next
      case False
      with kept [OF False] there \<open>fs w' = f\<close> show ?thesis by auto
    qed
  qed
  moreover have "nodes (fs (snd (clean_up_certs ev cfg all_domains w))) p = nodes (fs w) p"
    if "\<not> ?elig"
    using kept [OF that] run by simp
  ultimately show ?thesis by blast
qed

text \<open>
  C1, as the specification has it, fails for a pass that an exception ends: the file
  \<open>old.pem\<close> names only \<open>old.example\<close>, no domain is active, and the pass, which
  meets a file that does not parse first, deletes nothing.
\<close>

theorem clean_up_stops_at_bad_file:
  "get_dns_names old_cert = Inr [''old.example'']
   \<and> clean_up_certs (certs_env [''bad.pem'', ''old.pem'']) example_cfg [] (start_world certs_fs)
       = (Some CryptoError, start_world certs_fs)
   \<and> nodes certs_fs old_pem = Some (File ''old'')"
  by (simp add: cleanup_eval)


lemma clean_up_old_example:
  "clean_up_certs (certs_env [''old.pem'']) example_cfg [] (start_world certs_fs)
     = (None, snd (clean_up_certs (certs_env [''old.pem'']) example_cfg [] (start_world certs_fs)))"
  by (simp add: cleanup_eval)

theorem clean_up_certs_deletes_iff_witness:
  "nodes (fs (snd (clean_up_certs (certs_env [''old.pem'']) example_cfg []
                    (start_world certs_fs)))) old_pem = None
   \<and> nodes (fs (snd (clean_up_certs (certs_env [''old.pem'']) example_cfg
                      [(''old.example'', ''b1'')] (start_world certs_fs)))) old_pem
       = Some (File ''old'')"
proof -
  let ?ev = "certs_env [''old.pem'']"
  let ?w = "start_world certs_fs"
  have g: "old_pem \<in> set (glob_pem ?ev (fs ?w) (haproxy_certs_dir example_cfg))"
    by (simp add: cleanup_eval)
  have r: "read_file (fs ?w) old_pem = Inr ''old''"
    by (simp add: cleanup_eval)
  have l: "load_certificate ?ev ''old'' = Inr old_cert"
    by (simp add: cleanup_eval)
  from clean_up_certs_deletes_iff [OF g r l old_cert_names, of "[]"]
    clean_up_certs_deletes_iff [OF g r l old_cert_names, of "[(''old.example'', ''b1'')]"]
    clean_up_old_example
  show ?thesis
    by (simp add: start_world_def certs_fs_def old_pem_def bad_pem_def)
qed

lemma clean_up_loop_append:
  "clean_up_loop ev A (xs @ ys) f =
     (case clean_up_loop ev A xs f of
        (Some e, f1) \<Rightarrow> (Some e, f1)
      | (None, f1) \<Rightarrow> clean_up_loop ev A ys f1)"
proof (induction xs arbitrary: f)
  case Nil
  show ?case by simp
next
  case (Cons x xs)
  show ?case
    unfolding append_Cons clean_up_loop_step [of ev A x] Cons.IH
    by (simp split: sum.splits prod.splits option.splits)
qed

lemma collect_dns_raises: "collect_dns acc cs = Inl e \<Longrightarrow> is_ValueError e"
  by (induction acc cs rule: collect_dns.induct)
    (auto simp: unpack_error_def split: list.splits if_splits)

lemma scan_extensions_raises: "scan_extensions exts = Some (Inl e) \<Longrightarrow> is_ValueError e"
  by (induction exts) (auto dest: collect_dns_raises split: if_splits)

lemma scan_subject_raises: "scan_subject comps = Some (Inl e) \<Longrightarrow> is_ValueError e"
  by (induction comps rule: scan_subject.induct) (auto split: if_splits bytes.splits)

lemma get_dns_names_raises: "get_dns_names cert = Inl e \<Longrightarrow> is_ValueError e"
  by (auto simp: get_dns_names_def no_names_error_def
      dest: scan_extensions_raises scan_subject_raises split: option.splits)

lemma decide_no_names:
  assumes "read_file f p = Inr pem" and "load_certificate ev pem = Inr cert"
    and "get_dns_names cert = Inl e"
  shows "decide ev A f p = Inr False"
  using assms get_dns_names_raises [OF assms(3)] by (simp add: decide_def)

lemma clean_up_loop_skip:
  assumes "matches_pem (name p)" and "decide ev A f p = Inr False"
  shows "clean_up_loop ev A (pre @ p # post) f = clean_up_loop ev A (pre @ post) f"
proof -
  obtain r f1 where pre: "clean_up_loop ev A pre f = (r, f1)"
    by (cases "clean_up_loop ev A pre f")
  from clean_up_loop_kept [OF assms pre] have "decide ev A f1 p = Inr False" by simp
  then have "clean_up_loop ev A (p # post) f1 = clean_up_loop ev A post f1"
    by (simp add: clean_up_loop_step del: clean_up_loop.simps)
  then show ?thesis
    by (simp add: clean_up_loop_append pre del: clean_up_loop.simps split: option.splits)
qed

text \<open>
  C6, as the code has it. Let \<open>p\<close> be a file of the scan, with the files \<open>pre\<close> before
  it and \<open>post\<close> after it. If \<open>p\<close> parses and no name can be extracted from it, it is
  left as it was and the pass is the pass over \<open>pre\<close> and \<open>post\<close>: the file is skipped.
  If the pass reaches \<open>p\<close> and \<open>p\<close> cannot be read or does not parse, the pass ends
  there with that exception. If the pass reaches \<open>p\<close>, decides to remove it and
  \<open>remove_cert\<close> raises, the pass ends there with that exception. In both cases the
  files of \<open>post\<close> are not looked at.
\<close>

theorem per_file_failures:
  assumes "glob_pem ev (fs w) (haproxy_certs_dir cfg) = pre @ p # post"
  shows "(read_file (fs w) p = Inr pem \<and> load_certificate ev pem = Inr cert
          \<and> get_dns_names cert = Inl e \<longrightarrow>
            nodes (fs (snd (clean_up_certs ev cfg all_domains w))) p = nodes (fs w) p
            \<and> clean_up_certs ev cfg all_domains w =
                (fst (clean_up_loop ev (set (map fst all_domains)) (pre @ post) (fs w)),
                 w\<lparr>fs := snd (clean_up_loop ev (set (map fst all_domains)) (pre @ post) (fs w))\<rparr>))
    \<and> (clean_up_loop ev (set (map fst all_domains)) pre (fs w) = (None, f1)
        \<and> (read_file f1 p = Inl e'
            \<or> (\<exists>pem'. read_file f1 p = Inr pem' \<and> load_certificate ev pem' = Inl e')) \<longrightarrow>
          clean_up_certs ev cfg all_domains w = (Some e', w\<lparr>fs := f1\<rparr>))
    \<and> (clean_up_loop ev (set (map fst all_domains)) pre (fs w) = (None, f1)
        \<and> read_file f1 p = Inr pem2 \<and> load_certificate ev pem2 = Inr cert2
        \<and> get_dns_names cert2 = Inr names
        \<and> \<not> (\<exists>nm\<in>set names. CHR ''*'' \<in> set nm)
        \<and> set names \<inter> set (map fst all_domains) = {}
        \<and> remove_cert f1 p = (Some e2, f2) \<longrightarrow>
          clean_up_certs ev cfg all_domains w = (Some e2, w\<lparr>fs := f2\<rparr>))"
proof -
  let ?A = "set (map fst all_domains)"
  have pem: "matches_pem (name p)"
    using glob_pem_matches [of p ev "fs w" "haproxy_certs_dir cfg"] assms by simp
  have run: "clean_up_certs ev cfg all_domains w =
      (fst (clean_up_loop ev ?A (pre @ p # post) (fs w)),
       w\<lparr>fs := snd (clean_up_loop ev ?A (pre @ p # post) (fs w))\<rparr>)"
    by (simp add: clean_up_certs_def assms split: prod.splits)
  have a: "nodes (fs (snd (clean_up_certs ev cfg all_domains w))) p = nodes (fs w) p
      \<and> clean_up_certs ev cfg all_domains w =
          (fst (clean_up_loop ev ?A (pre @ post) (fs w)),
           w\<lparr>fs := snd (clean_up_loop ev ?A (pre @ post) (fs w))\<rparr>)"
    if "read_file (fs w) p = Inr pem" "load_certificate ev pem = Inr cert"
      "get_dns_names cert = Inl e"
  proof -
    have dec: "decide ev ?A (fs w) p = Inr False"
      using that by (rule decide_no_names)
    have skip: "clean_up_loop ev ?A (pre @ p # post) (fs w) = clean_up_loop ev ?A (pre @ post) (fs w)"
      using pem dec by (rule clean_up_loop_skip)
    obtain r f where loop: "clean_up_loop ev ?A (pre @ post) (fs w) = (r, f)"
      by (cases "clean_up_loop ev ?A (pre @ post) (fs w)")
    from clean_up_loop_kept [OF pem dec loop] have "nodes f p = nodes (fs w) p" by simp
    then show ?thesis
      unfolding run skip loop by simp
  qed
  have b: "clean_up_certs ev cfg all_domains w = (Some e', w\<lparr>fs := f1\<rparr>)"
    if "clean_up_loop ev ?A pre (fs w) = (None, f1)"
      "read_file f1 p = Inl e' \<or> (\<exists>pem'. read_file f1 p = Inr pem' \<and> load_certificate ev pem' = Inl e')"
  proof -
    have "decide ev ?A f1 p = Inl e'"
      using that(2) by (auto simp: decide_def)
    with that(1) show ?thesis
      unfolding run by (simp add: clean_up_loop_append clean_up_loop_step del: clean_up_loop.simps)
  qed
  have c: "clean_up_certs ev cfg all_domains w = (Some e2, w\<lparr>fs := f2\<rparr>)"
    if "clean_up_loop ev ?A pre (fs w) = (None, f1)"
      "read_file f1 p = Inr pem2" "load_certificate ev pem2 = Inr cert2"
      "get_dns_names cert2 = Inr names"
      "\<not> (\<exists>nm\<in>set names. CHR ''*'' \<in> set nm)" "set names \<inter> ?A = {}"
      "remove_cert f1 p = (Some e2, f2)"
  proof -
    have "decide ev ?A f1 p = Inr True"
      using decide_names [OF that(2-4), of ?A] that(5,6) by simp
    with that(1,7) show ?thesis
      unfolding run
      by (simp add: clean_up_loop_append clean_up_loop_step del: clean_up_loop.simps)
  qed
  from a b c show ?thesis by blast
qed


theorem per_file_failures_witness:
  "clean_up_certs (certs_env [''noname.pem'', ''old.pem'']) example_cfg [] (start_world noname_fs)
     = (None, \<lparr>fs = snd (clean_up_loop (certs_env [''noname.pem'', ''old.pem'']) {} [old_pem] noname_fs),
               ctx_memo = None, trace = []\<rparr>)
   \<and> nodes (fs (snd (clean_up_certs (certs_env [''noname.pem'', ''old.pem'']) example_cfg []
                      (start_world noname_fs)))) noname_pem = Some (File ''noname'')
   \<and> nodes (fs (snd (clean_up_certs (certs_env [''noname.pem'', ''old.pem'']) example_cfg []
                      (start_world noname_fs)))) old_pem = None
   \<and> clean_up_certs (certs_env [''bad.pem'', ''old.pem'']) example_cfg [] (start_world certs_fs)
       = (Some CryptoError, start_world certs_fs)
   \<and> clean_up_certs (certs_env [''old.pem'', ''older.pem'']) example_cfg [] (start_world locked_fs)
       = (Some PermissionError, start_world locked_fs)"
proof -
  have g1: "glob_pem (certs_env [''noname.pem'', ''old.pem'']) (fs (start_world noname_fs))
      (haproxy_certs_dir example_cfg) = [] @ noname_pem # [old_pem]"
    by (simp add: cleanup_eval)
  have g2: "glob_pem (certs_env [''bad.pem'', ''old.pem'']) (fs (start_world certs_fs))
      (haproxy_certs_dir example_cfg) = [] @ bad_pem # [old_pem]"
    by (simp add: cleanup_eval)
  have g3: "glob_pem (certs_env [''old.pem'', ''older.pem'']) (fs (start_world locked_fs))
      (haproxy_certs_dir example_cfg) = [] @ old_pem # [older_pem]"
    by (simp add: cleanup_eval)
  from per_file_failures [OF g1, of "''noname''" noname_cert no_names_error "[]"]
    per_file_failures [OF g2, of _ _ _ "[]" certs_fs CryptoError]
    per_file_failures [OF g3, of _ _ _ "[]" locked_fs _ "''old''" old_cert "[''old.example'']"
      PermissionError locked_fs]
  show ?thesis
    by (simp add: cleanup_eval)
qed

text \<open>
  C6, as the specification has it, fails for a file system error during deletion: the
  first file may not be removed, the pass ends with \<^verbatim>\<open>PermissionError\<close>, and the second
  file, which a pass over it alone deletes, is still there.
\<close>

theorem clean_up_stops_at_locked_file:
  "clean_up_certs (certs_env [''old.pem'', ''older.pem'']) example_cfg [] (start_world locked_fs)
     = (Some PermissionError, start_world locked_fs)
   \<and> fst (clean_up_certs (certs_env [''older.pem'']) example_cfg [] (start_world locked_fs)) = None
   \<and> nodes (fs (snd (clean_up_certs (certs_env [''older.pem'']) example_cfg []
                      (start_world locked_fs)))) older_pem = None"
  by (simp add: cleanup_eval)

subsection \<open>Names of a certificate with a subject alternative name\<close>

lemma split_sep_item:
  "\<not> has_comma_space x \<Longrightarrow> split_sep '', '' (x @ '', '' @ rest) = x # split_sep '', '' rest"
proof (induction x rule: has_comma_space.induct)
  case 1
  show ?case by simp
next
  case (2 a)
  show ?case by simp
next
  case (3 a b cs)
  then show ?case by auto
qed

lemma split_sep_last:
  "\<not> has_comma_space x \<Longrightarrow> split_sep '', '' x = [x]"
proof (induction x rule: has_comma_space.induct)
  case 1
  show ?case by simp
next
  case (2 a)
  show ?case by simp
next
  case (3 a b cs)
  then show ?case by auto
qed

lemma split_sep_join:
  "items \<noteq> [] \<Longrightarrow> \<forall>x\<in>set items. \<not> has_comma_space x
     \<Longrightarrow> split_sep '', '' (join_sep '', '' items) = items"
proof (induction items)
  case Nil
  then show ?case by simp
next
  case (Cons x xs)
  show ?case
  proof (cases xs)
    case Nil
    with Cons.prems show ?thesis by (simp add: split_sep_last)
  next
    case (Cons y ys)
    with Cons.IH Cons.prems have "split_sep '', '' (join_sep '', '' xs) = xs" by simp
    moreover have "split_sep '', '' (x @ '', '' @ join_sep '', '' xs)
        = x # split_sep '', '' (join_sep '', '' xs)"
      using Cons.prems by (intro split_sep_item) simp
    ultimately show ?thesis using Cons by simp
  qed
qed

lemma split_colon1_item:
  assumes "CHR '':'' \<notin> set l"
  shows "split_colon1 (l @ '':'' @ v) = [l, v]"
proof -
  have "takeWhile (\<lambda>c. c \<noteq> CHR '':'') (l @ CHR '':'' # v) = l"
    using assms by (induction l) auto
  moreover have "dropWhile (\<lambda>c. c \<noteq> CHR '':'') (l @ CHR '':'' # v) = CHR '':'' # v"
    using assms by (induction l) auto
  ultimately show ?thesis
    by (simp add: split_colon1_def)
qed

lemma collect_dns_entries:
  "\<forall>(l, v)\<in>set gns. CHR '':'' \<notin> set l \<Longrightarrow>
     collect_dns acc (map (\<lambda>(l, v). l @ '':'' @ v) gns)
       = Inr (acc @ map snd (filter (\<lambda>(l, v). l = ''DNS'') gns))"
proof (induction gns arbitrary: acc)
  case Nil
  show ?case by simp
next
  case (Cons e gns)
  obtain l v where e: "e = (l, v)" by (cases e)
  with Cons.prems have "split_colon1 (l @ '':'' @ v) = [l, v]"
    by (intro split_colon1_item) simp
  with Cons e show ?case by simp
qed

lemma scan_extensions_first:
  "\<forall>ext\<in>set before. short_name ext \<noteq> ''subjectAltName'' \<Longrightarrow>
     scan_extensions (before @ Extension ''subjectAltName'' san # after)
       = Some (collect_dns [] (split_sep '', '' san))"
  by (induction before) simp_all


lemma collect_dns_unpack: "collect_dns acc cs = Inl e \<Longrightarrow> e = unpack_error"
  by (induction acc cs rule: collect_dns.induct) (auto split: list.splits if_splits)

lemma collect_dns_no_colon:
  "c \<in> set cs \<Longrightarrow> CHR '':'' \<notin> set c \<Longrightarrow> collect_dns acc cs = Inl unpack_error"
proof (induction acc cs rule: collect_dns.induct)
  case (1 dns_names)
  then show ?case by simp
next
  case (2 dns_names component rest)
  show ?case
  proof (cases "CHR '':'' \<in> set component")
    case True
    with 2 have "c \<in> set rest" by auto
    with True 2 show ?thesis by (simp add: split_colon1_def)
  next
    case False
    then show ?thesis by (simp add: split_colon1_def)
  qed
qed

text \<open>
  What \<open>get_dns_names\<close> does for a certificate with a \<^verbatim>\<open>subjectAltName\<close> extension.
  The names do not depend on the subject: there is no fallback to the common name. When
  the string of the first such extension lists \<^verbatim>\<open>type:value\<close> items, none with a comma
  and a space inside, the result is the list of the values of the \<^verbatim>\<open>DNS\<close> items. The
  only exception is the \<^verbatim>\<open>ValueError\<close> of a failed unpacking, and the cleanup pass then
  leaves the file as it was. When the result is the empty list, a cleanup pass that ends
  without an exception deletes the file, whatever the active domains are.
\<close>

lemma get_dns_names_with_san:
  assumes "extensions cert = before @ Extension ''subjectAltName'' san # after"
    and "\<forall>ext\<in>set before. short_name ext \<noteq> ''subjectAltName''"
  shows "get_dns_names (X509 (extensions cert) other_subject) = get_dns_names cert
    \<and> (gns \<noteq> [] \<and> san = general_names_string gns
        \<and> (\<forall>(l, v)\<in>set gns. CHR '':'' \<notin> set l \<and> \<not> has_comma_space (l @ '':'' @ v)) \<longrightarrow>
          get_dns_names cert = Inr (map snd (filter (\<lambda>(l, v). l = ''DNS'') gns)))
    \<and> (get_dns_names cert = Inl e \<longrightarrow> e = unpack_error)
    \<and> (get_dns_names cert = Inl e
        \<and> p \<in> set (glob_pem ev (fs w) (haproxy_certs_dir cfg))
        \<and> read_file (fs w) p = Inr pem \<and> load_certificate ev pem = Inr cert \<longrightarrow>
          nodes (fs (snd (clean_up_certs ev cfg all_domains w))) p = nodes (fs w) p)
    \<and> (get_dns_names cert = Inr []
        \<and> p \<in> set (glob_pem ev (fs w) (haproxy_certs_dir cfg))
        \<and> read_file (fs w) p = Inr pem \<and> load_certificate ev pem = Inr cert
        \<and> clean_up_certs ev cfg all_domains w = (None, w') \<longrightarrow>
          nodes (fs w') p = None)"
proof -
  let ?A = "set (map fst all_domains)"
  let ?ps = "glob_pem ev (fs w) (haproxy_certs_dir cfg)"
  have scan: "scan_extensions (extensions cert) = Some (collect_dns [] (split_sep '', '' san))"
    unfolding assms(1) using assms(2) by (rule scan_extensions_first)
  then have names: "get_dns_names cert = collect_dns [] (split_sep '', '' san)"
    by (simp add: get_dns_names_def)
  have a: "get_dns_names (X509 (extensions cert) other_subject) = get_dns_names cert"
    using scan by (simp add: get_dns_names_def)
  have b: "get_dns_names cert = Inr (map snd (filter (\<lambda>(l, v). l = ''DNS'') gns))"
    if "gns \<noteq> []" "san = general_names_string gns"
      "\<forall>(l, v)\<in>set gns. CHR '':'' \<notin> set l \<and> \<not> has_comma_space (l @ '':'' @ v)"
  proof -
    let ?items = "map (\<lambda>(l, v). l @ '':'' @ v) gns"
    have "split_sep '', '' (join_sep '', '' ?items) = ?items"
      using that(1,3) by (intro split_sep_join) auto
    moreover have "collect_dns [] ?items = Inr ([] @ map snd (filter (\<lambda>(l, v). l = ''DNS'') gns))"
      using that(3) by (intro collect_dns_entries) auto
    ultimately show ?thesis
      unfolding names that(2) general_names_string_def by simp
  qed
  have c: "e = unpack_error" if "get_dns_names cert = Inl e"
    using that unfolding names by (rule collect_dns_unpack)
  obtain r f where loop: "clean_up_loop ev ?A ?ps (fs w) = (r, f)"
    by (cases "clean_up_loop ev ?A ?ps (fs w)")
  then have run: "clean_up_certs ev cfg all_domains w = (r, w\<lparr>fs := f\<rparr>)"
    by (simp add: clean_up_certs_def)
  have d: "nodes (fs (snd (clean_up_certs ev cfg all_domains w))) p = nodes (fs w) p"
    if "get_dns_names cert = Inl e" "p \<in> set ?ps"
      "read_file (fs w) p = Inr pem" "load_certificate ev pem = Inr cert"
  proof -
    have "decide ev ?A (fs w) p = Inr False"
      using that(3,4,1) by (rule decide_no_names)
    from clean_up_loop_kept [OF glob_pem_matches [OF that(2)] this loop] show ?thesis
      unfolding run by simp
  qed
  have e: "nodes (fs w') p = None"
    if "get_dns_names cert = Inr []" "p \<in> set ?ps"
      "read_file (fs w) p = Inr pem" "load_certificate ev pem = Inr cert"
      "clean_up_certs ev cfg all_domains w = (None, w')"
  proof -
    have "decide ev ?A (fs w) p = Inr True"
      using decide_names [OF that(3,4,1), of ?A] by simp
    moreover from that(5) run have "clean_up_loop ev ?A ?ps (fs w) = (None, fs w')"
      using loop by auto
    ultimately show ?thesis
      using clean_up_loop_removed [OF glob_pem_matches [OF that(2)] _ that(2)] by blast
  qed
  from a b c d e show ?thesis by blast
qed

lemma ip_cert_extensions:
  "extensions ip_cert =
     [Extension ''basicConstraints'' ''CA:FALSE''] @ Extension ''subjectAltName'' ''IP Address:192.0.2.1'' # []"
  by (simp add: ip_cert_def)

lemma clean_up_ip_example:
  "clean_up_certs (certs_env [''ip.pem'']) example_cfg [(''old.example'', ''b1'')] (start_world san_fs)
     = (None, snd (clean_up_certs (certs_env [''ip.pem'']) example_cfg [(''old.example'', ''b1'')]
                    (start_world san_fs)))"
  by (simp add: cleanup_eval)

lemma get_dns_names_ip_example:
  "get_dns_names ip_cert = Inr []
   \<and> nodes (fs (snd (clean_up_certs (certs_env [''ip.pem'']) example_cfg
                      [(''old.example'', ''b1'')] (start_world san_fs)))) ip_pem = None"
proof -
  have bef: "\<forall>ext\<in>set [Extension ''basicConstraints'' ''CA:FALSE'']. short_name ext \<noteq> ''subjectAltName''"
    by simp
  have names: "get_dns_names ip_cert = Inr []"
    using get_dns_names_with_san [OF ip_cert_extensions bef, of _ "[(''IP Address'', ''192.0.2.1'')]"]
    by (simp add: general_names_string_def)
  have g: "ip_pem \<in> set (glob_pem (certs_env [''ip.pem'']) (fs (start_world san_fs))
      (haproxy_certs_dir example_cfg))"
    by (simp add: cleanup_eval)
  have r: "read_file (fs (start_world san_fs)) ip_pem = Inr ''ip''"
    by (simp add: cleanup_eval)
  have l: "load_certificate (certs_env [''ip.pem'']) ''ip'' = Inr ip_cert"
    by (simp add: cleanup_eval)
  from get_dns_names_with_san [OF ip_cert_extensions bef, of _ _ _ ip_pem "certs_env [''ip.pem'']"
      "start_world san_fs" example_cfg "''ip''" "[(''old.example'', ''b1'')]"]
    names g r l clean_up_ip_example
  show ?thesis by simp
qed

text \<open>
  A piece of the string without a colon makes \<open>get_dns_names\<close> raise, whatever the
  other pieces are.
\<close>

lemma get_dns_names_piece_without_colon:
  assumes "extensions cert = before @ Extension ''subjectAltName'' san # after"
    and "\<forall>ext\<in>set before. short_name ext \<noteq> ''subjectAltName''"
    and "c \<in> set (split_sep '', '' san)" and "CHR '':'' \<notin> set c"
  shows "get_dns_names cert = Inl unpack_error"
proof -
  have "scan_extensions (extensions cert) = Some (collect_dns [] (split_sep '', '' san))"
    unfolding assms(1) using assms(2) by (rule scan_extensions_first)
  then show ?thesis
    using collect_dns_no_colon [OF assms(3,4), of "[]"] by (simp add: get_dns_names_def)
qed

text \<open>
  A value with a comma and a space in it is cut there, and what follows is read as an
  item of its own: the extension below holds one URI and no DNS name, and
  \<open>get_dns_names\<close> returns a DNS name.
\<close>

lemma uri_san_gives_dns_name:
  "subjectAltNameString (hd (extensions uri_cert))
     = general_names_string [(''URI'', ''http://x/a, DNS:evil.example'')]
   \<and> get_dns_names uri_cert = Inr [''evil.example'']"
  by (simp add: uri_cert_def general_names_string_def get_dns_names_def split_colon1_def)

text \<open>
  C9. The code does not do what the claim says for a subject alternative name that is a
  directory name with two attributes. \<^verbatim>\<open>_subjectAltNameString\<close> prints it with a comma
  and a space between the attributes, \<open>get_dns_names\<close> cuts the string there, and the
  second piece has no colon. The extension has no \<^verbatim>\<open>DNS\<close> item, yet \<open>get_dns_names\<close>
  does not return the empty list: it raises, and the cleanup pass, with no active domain
  at all, deletes nothing.
\<close>

theorem directory_name_san_raises:
  "get_dns_names dirname_cert = Inl (ValueError ''not enough values to unpack (expected 2, got 1)'')
   \<and> clean_up_certs (certs_env [''dirname.pem'']) example_cfg [] (start_world san_fs)
       = (None, start_world san_fs)"
  by (simp add: cleanup_eval)

subsection \<open>The order of the scan\<close>





















end
